theory Spec2Isabelle
  imports Main "HOL-Library.Char_ord" "HOL-Library.List_Lexorder"
begin

section \<open>Reminder records, timers and the engine state\<close>

text \<open>
  The embedding follows the last revision of \<^verbatim>\<open>main.go\<close> (the one that has
  \<^verbatim>\<open>Remove\<close>). A \<^verbatim>\<open>time.Time\<close> is the instant it denotes, in nanoseconds
  since the epoch; a Go \<^verbatim>\<open>string\<close> is its byte sequence, compared bytewise.
\<close>

record reminder =
  userID :: string
  creation :: int
  expiration :: int
  message :: string

text \<open>
  A \<^verbatim>\<open>*time.Timer\<close> made by \<^verbatim>\<open>time.AfterFunc\<close> is an object shared
  between the slice \<^verbatim>\<open>rs.timers\<close> and the Go runtime, which fires it. The model
  keeps every timer ever made in \<open>heap\<close>; a pointer is the index of its object there.
  An object records whether the timer is still armed, when it goes off, and the
  reminder its closure captured. An index beyond the heap stands for a pointer that
  refers to no timer (\<^verbatim>\<open>nil\<close>).
\<close>

datatype tstatus = Armed | Fired | Stopped

record timer =
  status :: tstatus
  deadline :: int
  job :: reminder

datatype logmsg =
    NotFound
  | AlreadyTriggering
  | Removed string int
  | ImportFailed

datatype panic = IndexOutOfRange | SliceBounds | NilDereference

text \<open>
  The fields \<^verbatim>\<open>reminders\<close> and \<^verbatim>\<open>timers\<close> of \<^verbatim>\<open>remindmeState\<close>, the timer
  objects, the wall clock that \<^verbatim>\<open>time.Now\<close> reads, the calls of the closure
  \<^verbatim>\<open>sendReminder\<close> made so far, and the lines the engine has logged. The mutex is
  not a field: each operation below is one critical section.
\<close>

record remindmeState =
  reminders :: "reminder list"
  timers :: "nat list"
  heap :: "timer list"
  clock :: int
  sent :: "reminder list"
  logs :: "logmsg list"

section \<open>Library functions the engine calls\<close>

text \<open>\<^verbatim>\<open>sort.Search(n, f)\<close>: the binary search of the Go library, with its loop.\<close>

function bsearch :: "(nat \<Rightarrow> bool) \<Rightarrow> nat \<Rightarrow> nat \<Rightarrow> nat" where
  "bsearch f i j =
     (if i < j then
        (let h = (i + j) div 2 in
         if \<not> f h then bsearch f (h + 1) j else bsearch f i h)
      else i)"
  by pat_completeness auto
termination
  by (relation "measure (\<lambda>(f, i, j). j - i)") auto

declare bsearch.simps [simp del]

definition Search :: "nat \<Rightarrow> (nat \<Rightarrow> bool) \<Rightarrow> nat" where
  "Search n f = bsearch f 0 n"

text \<open>
  \<^verbatim>\<open>copy(xs[d:], xs[s:])\<close> inside one slice: \<^verbatim>\<open>min (len - d) (len - s)\<close>
  elements move, read before any is overwritten.
\<close>

definition copy_within :: "nat \<Rightarrow> nat \<Rightarrow> 'a list \<Rightarrow> 'a list" where
  "copy_within d s xs =
     (let n = min (length xs - d) (length xs - s)
      in take d xs @ take n (drop s xs) @ drop (d + n) xs)"

text \<open>
  The insertion idiom of \<^verbatim>\<open>Add\<close>: \<^verbatim>\<open>xs = append(xs, nil); copy(xs[i+1:], xs[i:]);
  xs[i] = x\<close>. Slots hold pointers, \<open>None\<close> is \<^verbatim>\<open>nil\<close>. Slicing at \<^verbatim>\<open>i+1\<close>
  beyond the grown length panics.
\<close>

definition insert_at :: "nat \<Rightarrow> 'a \<Rightarrow> 'a list \<Rightarrow> panic + 'a list" where
  "insert_at i x xs =
     (let ys = map Some xs @ [None] in
      if length ys < i + 1 then Inl SliceBounds
      else Inr (map the ((copy_within (i + 1) i ys)[i := Some x])))"

text \<open>
  The deletion idiom of \<^verbatim>\<open>Remove\<close>: \<^verbatim>\<open>xs[k] = nil; copy(xs[k:], xs[k+1:]);
  xs = xs[:len(xs)-1]\<close>. The assignment panics when \<^verbatim>\<open>k\<close> is out of range.
\<close>

definition delete_at :: "nat \<Rightarrow> 'a list \<Rightarrow> panic + 'a list" where
  "delete_at k xs =
     (if length xs \<le> k then Inl IndexOutOfRange
      else (let ys = (map Some xs)[k := None];
                zs = copy_within k (k + 1) ys
            in Inr (map the (take (length zs - 1) zs))))"

text \<open>
  \<^verbatim>\<open>time.Until(t)\<close> is \<^verbatim>\<open>t.Sub(time.Now())\<close>, a \<^verbatim>\<open>Duration\<close> (an
  \<^verbatim>\<open>int64\<close> of nanoseconds) that saturates instead of overflowing.
\<close>

definition maxDuration :: int where
  "maxDuration = 2 ^ 63 - 1"

definition minDuration :: int where
  "minDuration = - (2 ^ 63)"

definition Until :: "int \<Rightarrow> int \<Rightarrow> int" where
  "Until now t =
     (let d = t - now in
      if d > maxDuration then maxDuration
      else if d < minDuration then minDuration
      else d)"

text \<open>
  \<^verbatim>\<open>(*time.Timer).Stop\<close>: true when the call stops an armed timer, false when the
  timer has already gone off or was stopped before.
\<close>

definition Stop :: "nat \<Rightarrow> timer list \<Rightarrow> panic + (bool \<times> timer list)" where
  "Stop h hp =
     (if length hp \<le> h then Inl NilDereference
      else if status (hp ! h) = Armed
        then Inr (True, hp[h := (hp ! h)\<lparr>status := Stopped\<rparr>])
        else Inr (False, hp))"

section \<open>Add and Remove\<close>

text \<open>
  The closure \<^verbatim>\<open>sendReminder\<close>: the one place the notification sink is invoked.
  Whether the chat service then accepts the message is outside the engine.
\<close>

definition sendReminder :: "reminder \<Rightarrow> remindmeState \<Rightarrow> remindmeState" where
  "sendReminder r s = s\<lparr>sent := sent s @ [r]\<rparr>"

definition logPrint :: "logmsg \<Rightarrow> remindmeState \<Rightarrow> remindmeState" where
  "logPrint m s = s\<lparr>logs := logs s @ [m]\<rparr>"

definition Add :: "reminder \<Rightarrow> remindmeState \<Rightarrow> panic + remindmeState" where
  "Add r s =
     (let fromNow = Until (clock s) (expiration r) in
      if fromNow \<le> 1 then Inr (sendReminder r s)
      else
        (let t = length (heap s);
             hp = heap s @ [\<lparr>status = Armed, deadline = clock s + fromNow, job = r\<rparr>];
             i = Search (length (reminders s)) (\<lambda>n. userID (reminders s ! n) > userID r)
         in case insert_at i r (reminders s) of
              Inl p \<Rightarrow> Inl p
            | Inr rs \<Rightarrow>
                (case insert_at i t (timers s) of
                   Inl p \<Rightarrow> Inl p
                 | Inr ts \<Rightarrow> Inr (s\<lparr>reminders := rs, timers := ts, heap := hp\<rparr>))))"

text \<open>
  \<^verbatim>\<open>Remove\<close>, in two parts. \<open>locate\<close> is its search (up to \<^verbatim>\<open>k += i\<close>):
  the range \<^verbatim>\<open>[i, j)\<close> of the user by two binary searches on \<^verbatim>\<open>userID\<close>, then
  a binary search on \<^verbatim>\<open>expiration\<close> inside \<^verbatim>\<open>authorReminders\<close>; the answer is
  the index in \<^verbatim>\<open>rs.reminders\<close>, or \<open>None\<close> where the code logs
  "Reminder for removal not found." and returns false.
\<close>

definition locate :: "string \<Rightarrow> int \<Rightarrow> reminder list \<Rightarrow> panic + nat option" where
  "locate uid e rs =
     (let i = Search (length rs) (\<lambda>n. userID (rs ! n) \<ge> uid);
          j = Search (length rs) (\<lambda>n. userID (rs ! n) > uid)
      in if j = i then Inr None
         else if j < i then Inl SliceBounds
         else
           (let authorReminders = take (j - i) (drop i rs);
                k = Search (length authorReminders) (\<lambda>n. expiration (authorReminders ! n) < e)
            in if k = 0 \<or> expiration (authorReminders ! (k - 1)) \<noteq> e
               then Inr None
               else Inr (Some (k - 1 + i))))"

text \<open>
  The rest of \<^verbatim>\<open>Remove\<close>: the timer at the index found is stopped; when
  \<^verbatim>\<open>Stop\<close> answers false nothing is removed, otherwise slot \<open>k\<close> is deleted from
  both slices.
\<close>

definition Remove :: "string \<Rightarrow> int \<Rightarrow> remindmeState \<Rightarrow> panic + (bool \<times> remindmeState)" where
  "Remove uid e s =
     (case locate uid e (reminders s) of
        Inl p \<Rightarrow> Inl p
      | Inr None \<Rightarrow> Inr (False, logPrint NotFound s)
      | Inr (Some k) \<Rightarrow>
          if length (timers s) \<le> k then Inl IndexOutOfRange
          else
            (case Stop (timers s ! k) (heap s) of
               Inl p \<Rightarrow> Inl p
             | Inr (False, _) \<Rightarrow> Inr (False, logPrint AlreadyTriggering s)
             | Inr (True, hp) \<Rightarrow>
                 (case delete_at k (reminders s) of
                    Inl p \<Rightarrow> Inl p
                  | Inr rs' \<Rightarrow>
                      (case delete_at k (timers s) of
                         Inl p \<Rightarrow> Inl p
                       | Inr ts' \<Rightarrow>
                           Inr (True, logPrint (Removed uid e)
                                  (s\<lparr>reminders := rs', timers := ts', heap := hp\<rparr>))))))"

section \<open>Timers going off\<close>

text \<open>
  The function handed to \<^verbatim>\<open>time.AfterFunc\<close> in \<^verbatim>\<open>Add\<close>: it sends the reminder
  and then calls \<^verbatim>\<open>rs.Remove(userID, expiration)\<close> with the two values captured
  when the reminder was added; the boolean that \<^verbatim>\<open>Remove\<close> returns is dropped.
\<close>

definition callback :: "reminder \<Rightarrow> remindmeState \<Rightarrow> panic + remindmeState" where
  "callback r s =
     (case Remove (userID r) (expiration r) (sendReminder r s) of
        Inl p \<Rightarrow> Inl p
      | Inr (_, s') \<Rightarrow> Inr s')"

text \<open>
  The runtime's part: an armed timer whose deadline has come is marked as gone off and
  its function runs. \<open>None\<close> when timer \<open>h\<close> cannot go off in state \<open>s\<close>.
  The function runs here in one step; in the program the sending happens outside the
  lock and only \<^verbatim>\<open>Remove\<close> inside it. \<open>advance\<close> lets time pass.
  \<open>goOff\<close> is the first half alone, the runtime marking the timer: in the program
  several timers may have gone off before the function of any of them reaches
  \<^verbatim>\<open>Remove\<close>, and \<open>callback\<close> applies to such states as to any other.
\<close>

definition timerFire :: "nat \<Rightarrow> remindmeState \<Rightarrow> (panic + remindmeState) option" where
  "timerFire h s =
     (if h < length (heap s) \<and> status (heap s ! h) = Armed \<and> deadline (heap s ! h) \<le> clock s
      then Some (callback (job (heap s ! h))
                   (s\<lparr>heap := (heap s)[h := (heap s ! h)\<lparr>status := Fired\<rparr>]\<rparr>))
      else None)"

definition advance :: "int \<Rightarrow> remindmeState \<Rightarrow> remindmeState" where
  "advance d s = s\<lparr>clock := clock s + (if d < 0 then 0 else d)\<rparr>"

definition goOff :: "nat \<Rightarrow> remindmeState \<Rightarrow> remindmeState option" where
  "goOff h s =
     (if h < length (heap s) \<and> status (heap s ! h) = Armed \<and> deadline (heap s ! h) \<le> clock s
      then Some (s\<lparr>heap := (heap s)[h := (heap s ! h)\<lparr>status := Fired\<rparr>]\<rparr>)
      else None)"

text \<open>
  The \<^verbatim>\<open>list\<close> command of \<^verbatim>\<open>remindmeHandler\<close>: the records it prints for a user,
  \<^verbatim>\<open>rmState.reminders[i:j]\<close>, or none when \<^verbatim>\<open>j - i == 0\<close>.
\<close>

definition ListFor :: "string \<Rightarrow> remindmeState \<Rightarrow> panic + reminder list" where
  "ListFor uid s =
     (let rs = reminders s;
          i = Search (length rs) (\<lambda>n. userID (rs ! n) \<ge> uid);
          j = Search (length rs) (\<lambda>n. userID (rs ! n) > uid)
      in if j = i then Inr []
         else if j < i then Inl SliceBounds
         else Inr (take (j - i) (drop i rs)))"

text \<open>A run of \<^verbatim>\<open>Add\<close> calls, one after the other.\<close>

fun AddAll :: "reminder list \<Rightarrow> remindmeState \<Rightarrow> panic + remindmeState" where
  "AddAll [] s = Inr s"
| "AddAll (r # rs) s = (case Add r s of Inl p \<Rightarrow> Inl p | Inr s' \<Rightarrow> AddAll rs s')"

section \<open>Checkpoint: the snapshot written\<close>

text \<open>
  \<^verbatim>\<open>reminder.String\<close> formats the message with the verb \<^verbatim>\<open>%q\<close>, which is
  \<^verbatim>\<open>strconv.Quote\<close>: the text between double quotes, a double quote or a backslash
  preceded by a backslash, a printable ASCII byte as it is, a control byte as its Go
  escape. Bytes from \<^verbatim>\<open>0x80\<close> up are taken to belong to printable UTF-8 runes,
  which \<^verbatim>\<open>Quote\<close> copies; the runes it would write as \<^verbatim>\<open>\u\<close> escapes are
  not modelled.
\<close>

definition lowerhex :: "nat \<Rightarrow> char" where
  "lowerhex n = ''0123456789abcdef'' ! n"

definition quoteByte :: "char \<Rightarrow> string" where
  "quoteByte c =
     (let n = (of_char c :: nat) in
      if c = CHR 0x22 \<or> c = CHR 0x5C then [CHR 0x5C, c]
      else if 0x20 \<le> n \<and> n < 0x7F then [c]
      else if 0x80 \<le> n then [c]
      else if c = CHR 0x07 then [CHR 0x5C, CHR ''a'']
      else if c = CHR 0x08 then [CHR 0x5C, CHR ''b'']
      else if c = CHR 0x0C then [CHR 0x5C, CHR ''f'']
      else if c = CHR 0x0A then [CHR 0x5C, CHR ''n'']
      else if c = CHR 0x0D then [CHR 0x5C, CHR ''r'']
      else if c = CHR 0x09 then [CHR 0x5C, CHR ''t'']
      else if c = CHR 0x0B then [CHR 0x5C, CHR ''v'']
      else [CHR 0x5C, CHR ''x'', lowerhex (n div 16), lowerhex (n mod 16)])"

definition Quote :: "string \<Rightarrow> string" where
  "Quote s = CHR 0x22 # concat (map quoteByte s) @ [CHR 0x22]"

text \<open>
  \<^verbatim>\<open>time.Time.Format\<close> at the layout \<^verbatim>\<open>time.RFC3339Nano\<close> is the parameter
  \<open>Format\<close>, and \<^verbatim>\<open>time.Parse\<close> at that layout the parameter \<open>Parse\<close> below.
\<close>

definition String :: "(int \<Rightarrow> string) \<Rightarrow> reminder \<Rightarrow> string" where
  "String Format r =
     userID r @ '','' @ Format (creation r) @ '','' @ Format (expiration r) @ '','' @
     Quote (message r)"

text \<open>
  \<^verbatim>\<open>WriteTo\<close>: its loop over \<^verbatim>\<open>rs.reminders\<close> writes each record and a
  newline into the buffer; the result is the bytes handed to the writer.
\<close>

fun writeRecords :: "(int \<Rightarrow> string) \<Rightarrow> reminder list \<Rightarrow> string" where
  "writeRecords Format [] = []"
| "writeRecords Format (r # rs) = String Format r @ [CHR 0x0A] @ writeRecords Format rs"

definition WriteTo :: "(int \<Rightarrow> string) \<Rightarrow> remindmeState \<Rightarrow> string" where
  "WriteTo Format s = writeRecords Format (reminders s)"

section \<open>Restore: the snapshot read back\<close>

text \<open>
  \<^verbatim>\<open>encoding/csv\<close> as \<^verbatim>\<open>ReadFrom\<close> configures it: comma separated, no
  comment character, no lazy quotes, the number of fields fixed by the first record.
  \<open>readLine\<close> is the reader's method of that name: one line with its newline,
  \<^verbatim>\<open>\r\n\<close> turned into \<^verbatim>\<open>\n\<close>, a carriage return before the end of the
  input dropped; \<open>None\<close> is \<^verbatim>\<open>io.EOF\<close>.
\<close>

datatype csv_error = ErrBareQuote | ErrQuote | ErrFieldCount

definition lengthNL :: "string \<Rightarrow> nat" where
  "lengthNL b = (if b \<noteq> [] \<and> last b = CHR 0x0A then 1 else 0)"

definition readLine :: "string \<Rightarrow> (string \<times> string) option" where
  "readLine inp =
     (if inp = [] then None
      else
        (let pre = takeWhile (\<lambda>c. c \<noteq> CHR 0x0A) inp;
             post = dropWhile (\<lambda>c. c \<noteq> CHR 0x0A) inp
         in if post = [] then Some (if last pre = CHR 0x0D then butlast pre else pre, [])
            else if pre \<noteq> [] \<and> last pre = CHR 0x0D then Some (butlast pre @ [CHR 0x0A], tl post)
            else Some (pre @ [CHR 0x0A], tl post)))"

lemma readLine_unfold:
  "readLine inp =
     (if inp = [] then None
      else if dropWhile (\<lambda>c. c \<noteq> CHR 0x0A) inp = []
        then Some (if last (takeWhile (\<lambda>c. c \<noteq> CHR 0x0A) inp) = CHR 0x0D
                   then butlast (takeWhile (\<lambda>c. c \<noteq> CHR 0x0A) inp)
                   else takeWhile (\<lambda>c. c \<noteq> CHR 0x0A) inp, [])
      else if takeWhile (\<lambda>c. c \<noteq> CHR 0x0A) inp \<noteq> [] \<and>
              last (takeWhile (\<lambda>c. c \<noteq> CHR 0x0A) inp) = CHR 0x0D
        then Some (butlast (takeWhile (\<lambda>c. c \<noteq> CHR 0x0A) inp) @ [CHR 0x0A],
                   tl (dropWhile (\<lambda>c. c \<noteq> CHR 0x0A) inp))
      else Some (takeWhile (\<lambda>c. c \<noteq> CHR 0x0A) inp @ [CHR 0x0A],
                 tl (dropWhile (\<lambda>c. c \<noteq> CHR 0x0A) inp)))"
  unfolding readLine_def Let_def by (rule refl)

lemma readLine_length:
  assumes "readLine inp = Some (l, rest)"
  shows "length l + length rest \<le> length inp"
proof -
  define pre where "pre = takeWhile (\<lambda>c. c \<noteq> CHR 0x0A) inp"
  define post where "post = dropWhile (\<lambda>c. c \<noteq> CHR 0x0A) inp"
  have eq: "length pre + length post = length inp"
    unfolding pre_def post_def by (metis length_append takeWhile_dropWhile_id)
  have rl: "(if inp = [] then None
      else if post = [] then Some (if last pre = CHR 0x0D then butlast pre else pre, [])
      else if pre \<noteq> [] \<and> last pre = CHR 0x0D then Some (butlast pre @ [CHR 0x0A], tl post)
      else Some (pre @ [CHR 0x0A], tl post)) = Some (l, rest)"
    using assms unfolding readLine_unfold pre_def post_def .
  show ?thesis
  proof (cases "post = []")
    case True
    with rl have "length l \<le> length pre \<and> rest = []"
      by (auto split: if_splits)
    with eq show ?thesis by simp
  next
    case False
    with rl have "rest = tl post" and "length l \<le> length pre + 1"
      by (auto split: if_splits)
    moreover from False have "length (tl post) + 1 = length post" by (cases post) auto
    ultimately have "length l + length rest \<le> length pre + length post" by simp
    with eq show ?thesis by simp
  qed
qed

lemma readLine_shrinks:
  assumes "readLine inp = Some (l, rest)"
  shows "length rest < length inp"
proof -
  define pre where "pre = takeWhile (\<lambda>c. c \<noteq> CHR 0x0A) inp"
  define post where "post = dropWhile (\<lambda>c. c \<noteq> CHR 0x0A) inp"
  have eq: "length pre + length post = length inp"
    unfolding pre_def post_def by (metis length_append takeWhile_dropWhile_id)
  have rl: "(if inp = [] then None
      else if post = [] then Some (if last pre = CHR 0x0D then butlast pre else pre, [])
      else if pre \<noteq> [] \<and> last pre = CHR 0x0D then Some (butlast pre @ [CHR 0x0A], tl post)
      else Some (pre @ [CHR 0x0A], tl post)) = Some (l, rest)"
    using assms unfolding readLine_unfold pre_def post_def .
  from rl have ne: "inp \<noteq> []" by (cases "inp = []") simp_all
  show ?thesis
  proof (cases "post = []")
    case True
    with rl ne have "rest = []" by simp
    with ne show ?thesis by simp
  next
    case False
    with rl ne have "rest = tl post"
      by (auto split: if_splits)
    moreover from False have "length (tl post) + 1 = length post" by (cases post) auto
    ultimately have "length rest < length pre + length post" by simp
    with eq show ?thesis by simp
  qed
qed


text \<open>The start of \<^verbatim>\<open>readRecord\<close>: empty lines are skipped.\<close>

function skipEmpty :: "string \<Rightarrow> (string \<times> string) option" where
  "skipEmpty inp =
     (case readLine inp of
        None \<Rightarrow> None
      | Some (line, rest) \<Rightarrow>
          if length line = lengthNL line then skipEmpty rest else Some (line, rest))"
  by pat_completeness auto
termination
  by (relation "measure length") (auto dest: readLine_shrinks)

declare skipEmpty.simps [simp del]

text \<open>
  The loop \<^verbatim>\<open>parseField\<close> of \<^verbatim>\<open>readRecord\<close>. \<open>quoted\<close> tells whether the
  scan is inside a quoted field, whose text so far is \<open>buf\<close>; \<open>fs\<close> are the
  fields completed, \<open>line\<close> what is left of the current line and \<open>rest\<close> the
  input after it. A quoted field may run over several lines.
\<close>

function parseFields ::
  "bool \<Rightarrow> string \<Rightarrow> string list \<Rightarrow> string \<Rightarrow> string \<Rightarrow> csv_error + (string list \<times> string)" where
  "parseFields quoted buf fs line rest =
     (if \<not> quoted then
        (if line = [] \<or> hd line \<noteq> CHR 0x22 then
           (let field = takeWhile (\<lambda>c. c \<noteq> CHR '','') line;
                more = dropWhile (\<lambda>c. c \<noteq> CHR '','') line;
                field = (if more = [] then take (length field - lengthNL field) field else field)
            in if CHR 0x22 \<in> set field then Inl ErrBareQuote
               else if more = [] then Inr (fs @ [field], rest)
               else parseFields False [] (fs @ [field]) (tl more) rest)
         else parseFields True [] fs (tl line) rest)
      else
        (if CHR 0x22 \<in> set line then
           (let buf = buf @ takeWhile (\<lambda>c. c \<noteq> CHR 0x22) line;
                line = tl (dropWhile (\<lambda>c. c \<noteq> CHR 0x22) line)
            in if line \<noteq> [] \<and> hd line = CHR 0x22 then parseFields True (buf @ [CHR 0x22]) fs (tl line) rest
               else if line \<noteq> [] \<and> hd line = CHR '','' then parseFields False [] (fs @ [buf]) (tl line) rest
               else if lengthNL line = length line then Inr (fs @ [buf], rest)
               else Inl ErrQuote)
         else if line \<noteq> [] then
           (case readLine rest of
              None \<Rightarrow> parseFields True (buf @ line) fs [] []
            | Some (line', rest') \<Rightarrow> parseFields True (buf @ line) fs line' rest')
         else Inl ErrQuote))"
  by pat_completeness auto

lemma length_dropWhile_le': "length (dropWhile P xs) \<le> length xs"
  by (induction xs) auto

lemma length_tl_dropWhile: "xs \<noteq> [] \<Longrightarrow> length (tl (dropWhile P xs)) < length xs"
proof -
  assume "xs \<noteq> []"
  then have "0 < length xs" by simp
  moreover have "length (dropWhile P xs) \<le> length xs" by (rule length_dropWhile_le')
  moreover have "length (tl (dropWhile P xs)) = length (dropWhile P xs) - 1" by simp
  ultimately show ?thesis by arith
qed

lemma length_tl_tl_dropWhile: "xs \<noteq> [] \<Longrightarrow> length (tl (tl (dropWhile P xs))) < length xs"
proof -
  assume a: "xs \<noteq> []"
  have "length (tl (tl (dropWhile P xs))) \<le> length (tl (dropWhile P xs))" by simp
  with length_tl_dropWhile [OF a, of P] show ?thesis by linarith
qed

termination parseFields
proof (relation "measure (\<lambda>(q, buf, fs, line, rest). length line + length rest)", goal_cases)
  case 1
  then show ?case by simp
next
  case (2 quoted buf fs line rest x xa xb)
  then have "line \<noteq> []" by auto
  from length_tl_dropWhile [OF this, of "\<lambda>c. c \<noteq> CHR '',''"] 2 show ?case by simp
next
  case (3 quoted buf fs line rest)
  then show ?case by (cases line) auto
next
  case (4 quoted buf fs line rest x xa)
  then have "line \<noteq> []" by auto
  from length_tl_tl_dropWhile [OF this, of "\<lambda>c. c \<noteq> CHR 0x22"] 4 show ?case by simp
next
  case (5 quoted buf fs line rest x xa)
  then have "line \<noteq> []" by auto
  from length_tl_tl_dropWhile [OF this, of "\<lambda>c. c \<noteq> CHR 0x22"] 5 show ?case by simp
next
  case (6 quoted buf fs line rest)
  then show ?case by (cases line) auto
next
  case (7 quoted buf fs line rest x2 x y)
  then have "length x + length y \<le> length rest" using readLine_length by simp
  moreover from 7 have "line \<noteq> []" by simp
  then have "0 < length line" by simp
  ultimately have "length x + length y < length line + length rest" by linarith
  then show ?case by simp
qed

declare parseFields.simps [simp del]

lemma skipEmpty_shrinks:
  "skipEmpty inp = Some (line, rest) \<Longrightarrow> length rest < length inp"
proof (induction inp rule: skipEmpty.induct)
  case (1 inp)
  show ?case
  proof (cases "readLine inp")
    case None
    with "1.prems" show ?thesis by (simp add: skipEmpty.simps [of inp])
  next
    case (Some p)
    obtain l r where p: "p = (l, r)" by (cases p)
    from Some p have lt: "length r < length inp" by (auto dest: readLine_shrinks)
    show ?thesis
    proof (cases "length l = lengthNL l")
      case True
      with Some p "1.prems" have "skipEmpty r = Some (line, rest)"
        by (simp add: skipEmpty.simps [of inp])
      with "1.IH" [OF Some p [symmetric] True] have "length rest < length r" by simp
      with lt show ?thesis by simp
    next
      case False
      with Some p "1.prems" have "rest = r" by (simp add: skipEmpty.simps [of inp])
      with lt show ?thesis by simp
    qed
  qed
qed

lemma parseFields_rest:
  "parseFields q buf fs line rest = Inr (fs', rest') \<Longrightarrow> length rest' \<le> length rest"
proof (induction q buf fs line rest rule: parseFields.induct)
  case (1 quoted buf fs line rest)
  show ?case
  proof (cases quoted)
    case False
    note nq = this
    show ?thesis
    proof (cases "line = [] \<or> hd line \<noteq> CHR 0x22")
      case True
      define field0 where "field0 = takeWhile (\<lambda>c. c \<noteq> CHR '','') line"
      define more where "more = dropWhile (\<lambda>c. c \<noteq> CHR '','') line"
      define field where "field = (if more = [] then take (length field0 - lengthNL field0) field0 else field0)"
      have unf: "parseFields quoted buf fs line rest =
        (if CHR 0x22 \<in> set field then Inl ErrBareQuote
         else if more = [] then Inr (fs @ [field], rest)
         else parseFields False [] (fs @ [field]) (tl more) rest)"
        using nq True unfolding field_def more_def field0_def
        by (subst parseFields.simps) (simp add: Let_def)
      show ?thesis
      proof (cases "CHR 0x22 \<in> set field")
        case True
        with unf "1.prems" show ?thesis by simp
      next
        case nb: False
        show ?thesis
        proof (cases "more = []")
          case True
          with unf nb "1.prems" show ?thesis by simp
        next
          case False
          with unf nb "1.prems" have "parseFields False [] (fs @ [field]) (tl more) rest = Inr (fs', rest')"
            by simp
          from "1.IH"(1) [OF nq True field0_def more_def field_def nb False this]
          show ?thesis .
        qed
      qed
    next
      case False
      with nq "1.prems" have "parseFields True [] fs (tl line) rest = Inr (fs', rest')"
        by (subst (asm) parseFields.simps) simp
      from "1.IH"(2) [OF nq False this] show ?thesis .
    qed
  next
    case True
    note q = this
    show ?thesis
    proof (cases "CHR 0x22 \<in> set line")
      case True
      note hasq = this
      define buf1 where "buf1 = buf @ takeWhile (\<lambda>c. c \<noteq> CHR 0x22) line"
      define line1 where "line1 = tl (dropWhile (\<lambda>c. c \<noteq> CHR 0x22) line)"
      have unf: "parseFields quoted buf fs line rest =
        (if line1 \<noteq> [] \<and> hd line1 = CHR 0x22 then parseFields True (buf1 @ [CHR 0x22]) fs (tl line1) rest
         else if line1 \<noteq> [] \<and> hd line1 = CHR '','' then parseFields False [] (fs @ [buf1]) (tl line1) rest
         else if lengthNL line1 = length line1 then Inr (fs @ [buf1], rest)
         else Inl ErrQuote)"
        using q hasq unfolding buf1_def line1_def
        by (subst parseFields.simps) (simp add: Let_def)
      show ?thesis
      proof (cases "line1 \<noteq> [] \<and> hd line1 = CHR 0x22")
        case True
        with unf "1.prems" have "parseFields True (buf1 @ [CHR 0x22]) fs (tl line1) rest = Inr (fs', rest')" by simp
        from "1.IH"(3) [OF _ hasq buf1_def line1_def True this] q
        show ?thesis by simp
      next
        case nqq: False
        show ?thesis
        proof (cases "line1 \<noteq> [] \<and> hd line1 = CHR '',''")
          case True
          with unf nqq "1.prems" have "parseFields False [] (fs @ [buf1]) (tl line1) rest = Inr (fs', rest')" by simp
          from "1.IH"(4) [OF _ hasq buf1_def line1_def nqq True this] q
          show ?thesis by simp
        next
          case False
          with unf nqq "1.prems" show ?thesis by (simp split: if_splits)
        qed
      qed
    next
      case noq: False
      show ?thesis
      proof (cases "line = []")
        case True
        with q noq "1.prems" show ?thesis by (subst (asm) parseFields.simps) simp
      next
        case ne: False
        show ?thesis
        proof (cases "readLine rest")
          case None
          with q noq ne "1.prems" have "parseFields True (buf @ line) fs [] [] = Inr (fs', rest')"
            by (subst (asm) parseFields.simps) simp
          from "1.IH"(5) [OF _ noq ne None this] q have "length rest' \<le> length ([]::string)" by simp
          then show ?thesis by simp
        next
          case (Some p)
          obtain l r where p: "p = (l, r)" by (cases p)
          with Some q noq ne "1.prems" have "parseFields True (buf @ line) fs l r = Inr (fs', rest')"
            by (subst (asm) parseFields.simps) simp
          from "1.IH"(6) [OF _ noq ne Some p [symmetric] this] q have "length rest' \<le> length r" by simp
          moreover from Some p have "length r < length rest" by (auto dest: readLine_shrinks)
          ultimately show ?thesis by simp
        qed
      qed
    qed
  qed
qed


text \<open>\<^verbatim>\<open>(*csv.Reader).Read\<close>, with the check of the number of fields.\<close>

record csvReader =
  input :: string
  FieldsPerRecord :: nat

datatype readResult = EOF | ReadError csv_error | Record "string list" csvReader

definition Read :: "csvReader \<Rightarrow> readResult" where
  "Read rr =
     (case skipEmpty (input rr) of
        None \<Rightarrow> EOF
      | Some (line, rest) \<Rightarrow>
          (case parseFields False [] [] line rest of
             Inl e \<Rightarrow> ReadError e
           | Inr (record, rest') \<Rightarrow>
               if FieldsPerRecord rr > 0 then
                 (if length record \<noteq> FieldsPerRecord rr then ReadError ErrFieldCount
                  else Record record (rr\<lparr>input := rest'\<rparr>))
               else Record record \<lparr>input = rest', FieldsPerRecord = length record\<rparr>))"

definition NewReader :: "string \<Rightarrow> csvReader" where
  "NewReader bb = \<lparr>input = bb, FieldsPerRecord = 0\<rparr>"

lemma Read_shrinks:
  assumes "Read rr = Record record rr'"
  shows "length (input rr') < length (input rr)"
proof -
  from assms obtain line rest where sk: "skipEmpty (input rr) = Some (line, rest)"
    by (cases "skipEmpty (input rr)") (auto simp: Read_def)
  from assms sk obtain rest' where pf: "parseFields False [] [] line rest = Inr (record, rest')"
    and inp: "input rr' = rest'"
    by (cases "parseFields False [] [] line rest")
       (auto simp: Read_def split: if_splits)
  from skipEmpty_shrinks [OF sk] parseFields_rest [OF pf] inp show ?thesis by simp
qed

text \<open>
  \<^verbatim>\<open>ReadFrom\<close>. The input has been read into the buffer; the loop takes one record
  at a time, indexes its fields (a record with fewer than four fields makes the
  indexing panic), parses the two timestamps and calls \<^verbatim>\<open>Add\<close>. The result is
  the error returned, if any, with the state reached; the byte count is left out. The
  clock stands still while the snapshot is read.
\<close>

datatype error = CsvError csv_error | InvalidRecord "string list"

function readRecords ::
  "(string \<Rightarrow> int option) \<Rightarrow> csvReader \<Rightarrow> remindmeState \<Rightarrow> panic + (error option \<times> remindmeState)" where
  "readRecords Parse rr s =
     (case Read rr of
        EOF \<Rightarrow> Inr (None, s)
      | ReadError e \<Rightarrow> Inr (Some (CsvError e), s)
      | Record record rr' \<Rightarrow>
          if length record \<le> 0 then Inl IndexOutOfRange
          else if length record \<le> 1 then Inl IndexOutOfRange
          else
            (case Parse (record ! 1) of
               None \<Rightarrow> Inr (Some (InvalidRecord record), s)
             | Some c \<Rightarrow>
                 if length record \<le> 2 then Inl IndexOutOfRange
                 else
                   (case Parse (record ! 2) of
                      None \<Rightarrow> Inr (Some (InvalidRecord record), s)
                    | Some e \<Rightarrow>
                        if length record \<le> 3 then Inl IndexOutOfRange
                        else
                          (case Add \<lparr>userID = record ! 0, creation = c, expiration = e,
                                     message = record ! 3\<rparr> s of
                             Inl p \<Rightarrow> Inl p
                           | Inr s' \<Rightarrow> readRecords Parse rr' s'))))"
  by pat_completeness auto
termination
  by (relation "measure (\<lambda>(Parse, rr, s). length (input rr))") (auto dest: Read_shrinks)

declare readRecords.simps [simp del]

definition ReadFrom ::
  "(string \<Rightarrow> int option) \<Rightarrow> string \<Rightarrow> remindmeState \<Rightarrow> panic + (error option \<times> remindmeState)" where
  "ReadFrom Parse r s = readRecords Parse (NewReader r) s"

text \<open>
  The part of \<^verbatim>\<open>constructRMState\<close> from the call of \<^verbatim>\<open>ReadFrom\<close> on, given
  the contents of the latest snapshot file: when \<^verbatim>\<open>ReadFrom\<close> returns an error
  both slices are emptied, every timer in \<^verbatim>\<open>rmState.timers\<close> is stopped, and
  the failure is logged.
\<close>

fun stopAll :: "nat list \<Rightarrow> timer list \<Rightarrow> panic + timer list" where
  "stopAll [] hp = Inr hp"
| "stopAll (t # ts) hp =
     (case Stop t hp of
        Inl p \<Rightarrow> Inl p
      | Inr (_, hp') \<Rightarrow> stopAll ts hp')"

definition constructRMState ::
  "(string \<Rightarrow> int option) \<Rightarrow> string \<Rightarrow> remindmeState \<Rightarrow> panic + remindmeState" where
  "constructRMState Parse remindersFile s =
     (case ReadFrom Parse remindersFile s of
        Inl p \<Rightarrow> Inl p
      | Inr (None, s') \<Rightarrow> Inr s'
      | Inr (Some err, s') \<Rightarrow>
          (case stopAll (timers s') (heap s') of
             Inl p \<Rightarrow> Inl p
           | Inr hp \<Rightarrow> Inr (logPrint ImportFailed (s'\<lparr>reminders := [], timers := [], heap := hp\<rparr>))))"

text \<open>
  \<^verbatim>\<open>deconstructRMState\<close>: every timer is stopped, then the records are written
  (to the new snapshot file, or to standard error when the directory cannot be made).
\<close>

definition deconstructRMState ::
  "(int \<Rightarrow> string) \<Rightarrow> remindmeState \<Rightarrow> panic + (string \<times> remindmeState)" where
  "deconstructRMState Format s =
     (case stopAll (timers s) (heap s) of
        Inl p \<Rightarrow> Inl p
      | Inr hp \<Rightarrow> (let s' = s\<lparr>heap := hp\<rparr> in Inr (WriteTo Format s', s')))"

section \<open>Timestamps in the UTC profile\<close>

text \<open>
  An instance for the two parameters. \<open>FormatRFC3339Nano\<close> is
  \<^verbatim>\<open>Format(time.RFC3339Nano)\<close> of a time in UTC, which is how the handler creates
  every time it stores. \<open>ParseRFC3339Nano\<close> reads back exactly the strings of that
  shape (zone \<^verbatim>\<open>Z\<close>, at most nine fractional digits); the library accepts more
  (numeric zone offsets, further fractional digits, a comma before the fraction, an hour
  of one digit), all of which this instance answers with \<open>None\<close>. No statement
  below depends on a string outside that shape being refused.
\<close>

definition digit :: "int \<Rightarrow> char" where
  "digit n = ''0123456789'' ! nat (n mod 10)"

function decimal :: "int \<Rightarrow> string" where
  "decimal n = (if n < 10 then [digit n] else decimal (n div 10) @ [digit n])"
  by pat_completeness auto
termination
  by (relation "measure nat") auto

declare decimal.simps [simp del]

definition appendInt :: "int \<Rightarrow> nat \<Rightarrow> string" where
  "appendInt x width =
     (let ds = decimal \<bar>x\<bar>
      in (if x < 0 then ''-'' else []) @ replicate (width - length ds) (CHR ''0'') @ ds)"

definition civil :: "int \<Rightarrow> int \<times> int \<times> int" where
  "civil days =
     (let z = days + 719468;
          era = z div 146097;
          doe = z - era * 146097;
          yoe = (doe - doe div 1460 + doe div 36524 - doe div 146096) div 365;
          doy = doe - (365 * yoe + yoe div 4 - yoe div 100);
          mp = (5 * doy + 2) div 153;
          d = doy - (153 * mp + 2) div 5 + 1;
          m = (if mp < 10 then mp + 3 else mp - 9);
          y = yoe + era * 400 + (if m \<le> 2 then 1 else 0)
      in (y, m, d))"

definition formatNano :: "int \<Rightarrow> string" where
  "formatNano nsec =
     (let ds = rev (dropWhile (\<lambda>c. c = CHR ''0'') (rev (appendInt nsec 9)))
      in if ds = [] then [] else CHR ''.'' # ds)"

definition FormatRFC3339Nano :: "int \<Rightarrow> string" where
  "FormatRFC3339Nano t =
     (let sec = t div 1000000000;
          nsec = t mod 1000000000;
          sod = sec mod 86400
      in case civil (sec div 86400) of (y, m, d) \<Rightarrow>
           appendInt y 4 @ ''-'' @ appendInt m 2 @ ''-'' @ appendInt d 2 @ ''T'' @
           appendInt (sod div 3600) 2 @ '':'' @ appendInt (sod mod 3600 div 60) 2 @ '':'' @
           appendInt (sod mod 60) 2 @ formatNano nsec @ ''Z'')"

fun atoi :: "int \<Rightarrow> string \<Rightarrow> int option" where
  "atoi acc [] = Some acc"
| "atoi acc (c # cs) =
     (if CHR ''0'' \<le> c \<and> c \<le> CHR ''9''
      then atoi (10 * acc + (of_char c - of_char (CHR ''0''))) cs
      else None)"

definition daysIn :: "int \<Rightarrow> int \<Rightarrow> int" where
  "daysIn m y =
     (if m = 2 then (if y mod 4 = 0 \<and> (y mod 100 \<noteq> 0 \<or> y mod 400 = 0) then 29 else 28)
      else if m = 4 \<or> m = 6 \<or> m = 9 \<or> m = 11 then 30
      else 31)"

definition daysFromCivil :: "int \<Rightarrow> int \<Rightarrow> int \<Rightarrow> int" where
  "daysFromCivil y m d =
     (let y' = (if m \<le> 2 then y - 1 else y);
          era = y' div 400;
          yoe = y' - era * 400;
          doy = (153 * (if m > 2 then m - 3 else m + 9) + 2) div 5 + d - 1;
          doe = yoe * 365 + yoe div 4 - yoe div 100 + doy
      in era * 146097 + doe - 719468)"

definition ParseRFC3339Nano :: "string \<Rightarrow> int option" where
  "ParseRFC3339Nano v =
     (if length v < 20 \<or> v ! 4 \<noteq> CHR ''-'' \<or> v ! 7 \<noteq> CHR ''-'' \<or> v ! 10 \<noteq> CHR ''T'' \<or>
         v ! 13 \<noteq> CHR '':'' \<or> v ! 16 \<noteq> CHR '':'' \<or> last v \<noteq> CHR ''Z''
      then None
      else
        (let frac = butlast (drop 19 v);
             digits = (if frac = [] then Some [] 
                       else if hd frac = CHR ''.'' \<and> 1 < length frac \<and> length frac \<le> 10
                       then Some (tl frac) else None)
         in case (atoi 0 (take 4 v), atoi 0 (take 2 (drop 5 v)), atoi 0 (take 2 (drop 8 v)),
                  atoi 0 (take 2 (drop 11 v)), atoi 0 (take 2 (drop 14 v)),
                  atoi 0 (take 2 (drop 17 v)), digits) of
              (Some y, Some m, Some d, Some hh, Some mm, Some ss, Some ds) \<Rightarrow>
                (case atoi 0 (ds @ replicate (9 - length ds) (CHR ''0'')) of
                   None \<Rightarrow> None
                 | Some nsec \<Rightarrow>
                     if 1 \<le> m \<and> m \<le> 12 \<and> 1 \<le> d \<and> d \<le> daysIn m y \<and>
                        hh < 24 \<and> mm < 60 \<and> ss < 60
                     then Some ((((daysFromCivil y m d * 24 + hh) * 60 + mm) * 60 + ss) * 1000000000
                                + nsec)
                     else None)
            | _ \<Rightarrow> None))"

section \<open>The pairing of the two slices\<close>

text \<open>
  \<^verbatim>\<open>rs.reminders\<close> and \<^verbatim>\<open>rs.timers\<close> are parallel: they have the same length,
  and slot \<open>i\<close> of \<^verbatim>\<open>rs.timers\<close> points to the timer whose function was made for
  the record in slot \<open>i\<close> of \<^verbatim>\<open>rs.reminders\<close>.
\<close>

definition paired :: "remindmeState \<Rightarrow> bool" where
  "paired s =
     list_all2 (\<lambda>r t. t < length (heap s) \<and> job (heap s ! t) = r) (reminders s) (timers s)"

section \<open>States and records used as examples\<close>

text \<open>
  The engine just after start at 2026-11-01T18:00:00Z with nothing restored, and three
  reminders of one user: two due in one and in two hours, one an hour overdue.
\<close>

definition hour :: int where
  "hour = 3600000000000"

definition startup :: remindmeState where
  "startup = \<lparr>reminders = [], timers = [], heap = [], clock = 1793556000000000000,
              sent = [], logs = []\<rparr>"

definition buyMilk :: reminder where
  "buyMilk = \<lparr>userID = ''1001'', creation = 1793556000000000000,
              expiration = 1793556000000000000 + hour, message = ''buy milk''\<rparr>"

definition callMom :: reminder where
  "callMom = \<lparr>userID = ''1001'', creation = 1793556000000000000,
              expiration = 1793556000000000000 + 2 * hour, message = ''call mom''\<rparr>"

definition overdue :: reminder where
  "overdue = \<lparr>userID = ''1001'', creation = 1793556000000000000 - 2 * hour,
              expiration = 1793556000000000000 - hour, message = ''water plants''\<rparr>"

text \<open>The two pending reminders added in this order, as \<^verbatim>\<open>Add\<close> leaves the state.\<close>

definition milkAndMom :: remindmeState where
  "milkAndMom = startup\<lparr>reminders := [buyMilk, callMom], timers := [0, 1],
     heap := [\<lparr>status = Armed, deadline = expiration buyMilk, job = buyMilk\<rparr>,
              \<lparr>status = Armed, deadline = expiration callMom, job = callMom\<rparr>]\<rparr>"

text \<open>One pending reminder alone in the store.\<close>

definition milkOnly :: remindmeState where
  "milkOnly = startup\<lparr>reminders := [buyMilk], timers := [0],
     heap := [\<lparr>status = Armed, deadline = expiration buyMilk, job = buyMilk\<rparr>]\<rparr>"

text \<open>
  One reminder whose timer has gone off an instant ago: the runtime has started its
  function, which has not yet reached \<^verbatim>\<open>Remove\<close>.
\<close>

definition milkFiring :: remindmeState where
  "milkFiring = startup\<lparr>reminders := [buyMilk], timers := [0],
     heap := [\<lparr>status = Fired, deadline = expiration buyMilk, job = buyMilk\<rparr>],
     clock := expiration buyMilk\<rparr>"

text \<open>A third reminder of the user, due in three hours, added after the two.\<close>

definition walkDog :: reminder where
  "walkDog = \<lparr>userID = ''1001'', creation = 1793556000000000000,
              expiration = 1793556000000000000 + 3 * hour, message = ''walk the dog''\<rparr>"

definition threePending :: remindmeState where
  "threePending = startup\<lparr>reminders := [buyMilk, callMom, walkDog], timers := [0, 1, 2],
     heap := [\<lparr>status = Armed, deadline = expiration buyMilk, job = buyMilk\<rparr>,
              \<lparr>status = Armed, deadline = expiration callMom, job = callMom\<rparr>,
              \<lparr>status = Armed, deadline = expiration walkDog, job = walkDog\<rparr>]\<rparr>"

text \<open>The same two reminders added in the other order.\<close>

definition momThenMilk :: remindmeState where
  "momThenMilk = startup\<lparr>reminders := [callMom, buyMilk], timers := [0, 1],
     heap := [\<lparr>status = Armed, deadline = expiration callMom, job = callMom\<rparr>,
              \<lparr>status = Armed, deadline = expiration buyMilk, job = buyMilk\<rparr>]\<rparr>"

text \<open>
  \<open>milkAndMom\<close> one hour later, when the runtime has marked the first timer as gone
  off and is about to run its function; and the state that function leaves.
\<close>

definition milkGoneOff :: remindmeState where
  "milkGoneOff = milkAndMom\<lparr>
     heap := [\<lparr>status = Fired, deadline = expiration buyMilk, job = buyMilk\<rparr>,
              \<lparr>status = Armed, deadline = expiration callMom, job = callMom\<rparr>],
     clock := expiration buyMilk\<rparr>"

definition milkSentNotRemoved :: remindmeState where
  "milkSentNotRemoved = milkAndMom\<lparr>
     heap := [\<lparr>status = Fired, deadline = expiration buyMilk, job = buyMilk\<rparr>,
              \<lparr>status = Armed, deadline = expiration callMom, job = callMom\<rparr>],
     clock := expiration buyMilk, sent := [buyMilk], logs := [NotFound]\<rparr>"

text \<open>
  A reminder whose message has double quotes in it, pending, and the line
  \<^verbatim>\<open>WriteTo\<close> writes for it; a reminder whose message has a backslash.
\<close>

definition sayHi :: reminder where
  "sayHi = buyMilk\<lparr>message := ''say '' @ [CHR 0x22] @ ''hi'' @ [CHR 0x22]\<rparr>"

definition sayHiPending :: remindmeState where
  "sayHiPending = startup\<lparr>reminders := [sayHi], timers := [0],
     heap := [\<lparr>status = Armed, deadline = expiration sayHi, job = sayHi\<rparr>]\<rparr>"

definition sayHiLine :: string where
  "sayHiLine = ''1001,2026-11-01T18:00:00Z,2026-11-01T19:00:00Z,'' @
     [CHR 0x22] @ ''say '' @ [CHR 0x5C, CHR 0x22] @ ''hi'' @ [CHR 0x5C, CHR 0x22] @ [CHR 0x22, CHR 0x0A]"

definition tempDir :: reminder where
  "tempDir = buyMilk\<lparr>message := ''clean C:'' @ [CHR 0x5C] @ ''temp''\<rparr>"

definition tempDirPending :: remindmeState where
  "tempDirPending = startup\<lparr>reminders := [tempDir], timers := [0],
     heap := [\<lparr>status = Armed, deadline = expiration tempDir, job = tempDir\<rparr>]\<rparr>"

section \<open>Facts about the library functions\<close>

lemma bsearch_bounds: "lo \<le> hi \<Longrightarrow> lo \<le> bsearch f lo hi \<and> bsearch f lo hi \<le> hi"
proof (induction f lo hi rule: bsearch.induct)
  case (1 f i j)
  show ?case
  proof (cases "i < j")
    case False
    then have "bsearch f i j = i" by (subst bsearch.simps) simp
    with "1.prems" show ?thesis by simp
  next
    case True
    define h where "h = (i + j) div 2"
    from True have hb: "i \<le> h" "h < j" by (auto simp: h_def)
    show ?thesis
    proof (cases "f h")
      case False
      from True False have eq: "bsearch f i j = bsearch f (h + 1) j"
        by (simp add: bsearch.simps [of f i j] h_def Let_def)
      from "1.IH"(1) [OF True h_def False] hb have "h + 1 \<le> bsearch f (h + 1) j \<and> bsearch f (h + 1) j \<le> j"
        by simp
      with eq hb show ?thesis by simp
    next
      case fh: True
      from True fh have eq: "bsearch f i j = bsearch f i h"
        by (simp add: bsearch.simps [of f i j] h_def Let_def)
      from "1.IH"(2) [OF True h_def] fh hb have "i \<le> bsearch f i h \<and> bsearch f i h \<le> h"
        by simp
      with eq hb show ?thesis by simp
    qed
  qed
qed

lemma Search_le: "Search n f \<le> n"
  using bsearch_bounds [of 0 n f] by (simp add: Search_def)

lemma bsearch_mono:
  "lo \<le> hi \<Longrightarrow> (\<And>n. p n \<Longrightarrow> q n) \<Longrightarrow> bsearch q lo hi \<le> bsearch p lo hi"
proof (induction q lo hi rule: bsearch.induct)
  case (1 q i j)
  show ?case
  proof (cases "i < j")
    case False
    then have "bsearch q i j = i" and "bsearch p i j = i" by (subst bsearch.simps, simp)+
    then show ?thesis by simp
  next
    case True
    define h where "h = (i + j) div 2"
    from True have hb: "i \<le> h" "h < j" by (auto simp: h_def)
    show ?thesis
    proof (cases "q h")
      case False
      then have nph: "\<not> p h" using "1.prems"(2) by blast
      from True False have eq: "bsearch q i j = bsearch q (h + 1) j"
        by (simp add: bsearch.simps [of q i j] h_def Let_def)
      from True nph have eqp: "bsearch p i j = bsearch p (h + 1) j"
        by (simp add: bsearch.simps [of p i j] h_def Let_def)
      from hb have "h + 1 \<le> j" by simp
      from "1.IH"(1) [OF True h_def False this "1.prems"(2)] eq eqp show ?thesis by simp
    next
      case qh: True
      from True qh have eq: "bsearch q i j = bsearch q i h"
        by (simp add: bsearch.simps [of q i j] h_def Let_def)
      show ?thesis
      proof (cases "p h")
        case True
        from \<open>i < j\<close> True have eqp: "bsearch p i j = bsearch p i h"
          by (simp add: bsearch.simps [of p i j] h_def Let_def)
        from "1.IH"(2) [OF \<open>i < j\<close> h_def _ hb(1) "1.prems"(2)] qh eq eqp show ?thesis by simp
      next
        case False
        from \<open>i < j\<close> False have eqp: "bsearch p i j = bsearch p (h + 1) j"
          by (simp add: bsearch.simps [of p i j] h_def Let_def)
        from hb have "h + 1 \<le> j" by simp
        from bsearch_bounds [OF this, of p] have "h + 1 \<le> bsearch p (h + 1) j" by simp
        moreover from bsearch_bounds [OF hb(1), of q] have "bsearch q i h \<le> h" by simp
        ultimately show ?thesis using eq eqp by simp
      qed
    qed
  qed
qed

lemma Search_mono: "(\<And>n. p n \<Longrightarrow> q n) \<Longrightarrow> Search m q \<le> Search m p"
  unfolding Search_def by (rule bsearch_mono) auto

lemma copy_within_insert:
  assumes "i \<le> length xs"
  shows "(copy_within (i + 1) i (xs @ [z]))[i := x] = take i xs @ x # drop i xs"
proof -
  have n: "min (length (xs @ [z]) - (i + 1)) (length (xs @ [z]) - i) = length xs - i"
    using assms by simp
  have "copy_within (i + 1) i (xs @ [z]) = take (i + 1) (xs @ [z]) @ take (length xs - i) (drop i (xs @ [z])) @ drop (i + 1 + (length xs - i)) (xs @ [z])"
    unfolding copy_within_def Let_def n ..
  also have "\<dots> = take (i + 1) (xs @ [z]) @ drop i xs"
    using assms by simp
  finally have cw: "copy_within (i + 1) i (xs @ [z]) = take (i + 1) (xs @ [z]) @ drop i xs" .
  have len: "length (take (i + 1) (xs @ [z])) = i + 1" using assms by simp
  have "take (Suc i) (xs @ [z]) = take i (xs @ [z]) @ [(xs @ [z]) ! i]"
    using assms by (intro take_Suc_conv_app_nth) simp
  then have "take (i + 1) (xs @ [z]) = take i xs @ [(xs @ [z]) ! i]"
    using assms by simp
  then have "(take (i + 1) (xs @ [z]) @ drop i xs)[i := x] = take i xs @ x # drop i xs"
    using assms by (simp add: list_update_append)
  with cw show ?thesis by simp
qed

lemma insert_at_eq:
  assumes "i \<le> length xs"
  shows "insert_at i x xs = Inr (take i xs @ x # drop i xs)"
proof -
  have "(copy_within (i + 1) i (map Some xs @ [None]))[i := Some x]
          = take i (map Some xs) @ Some x # drop i (map Some xs)"
    using assms by (intro copy_within_insert) simp
  also have "\<dots> = map Some (take i xs @ x # drop i xs)"
    by (simp add: take_map drop_map)
  finally have "map the ((copy_within (i + 1) i (map Some xs @ [None]))[i := Some x]) = take i xs @ x # drop i xs"
    by (simp add: comp_def)
  with assms show ?thesis by (simp add: insert_at_def Let_def)
qed

lemma insert_at_panics: "length xs < i \<Longrightarrow> insert_at i x xs = Inl SliceBounds"
  by (simp add: insert_at_def Let_def)

lemma delete_at_eq:
  assumes "k < length xs"
  shows "delete_at k xs = Inr (take k xs @ drop (Suc k) xs)"
proof -
  define ys where "ys = (map Some xs)[k := None]"
  have ly: "length ys = length xs" by (simp add: ys_def)
  have n: "min (length ys - k) (length ys - (k + 1)) = length xs - Suc k"
    using assms ly by simp
  have "copy_within k (k + 1) ys = take k ys @ take (length xs - Suc k) (drop (k + 1) ys) @ drop (k + (length xs - Suc k)) ys"
    unfolding copy_within_def Let_def n ..
  also have "\<dots> = take k ys @ drop (Suc k) ys @ drop (length xs - 1) ys"
    using assms ly by simp
  finally have cw: "copy_within k (k + 1) ys = take k ys @ drop (Suc k) ys @ drop (length xs - 1) ys" .
  have l1: "length (take k ys @ drop (Suc k) ys) = length xs - 1" using assms ly by simp
  have l2: "length (copy_within k (k + 1) ys) = length xs" using assms ly cw by simp
  have "take (length (copy_within k (k + 1) ys) - 1) (copy_within k (k + 1) ys) = take k ys @ drop (Suc k) ys"
    unfolding l2 unfolding cw using l1 by (metis append.assoc append_eq_conv_conj)
  also have "\<dots> = map Some (take k xs @ drop (Suc k) xs)"
    using assms by (simp add: ys_def take_map drop_map)
  finally have "map the (take (length (copy_within k (k + 1) ys) - 1) (copy_within k (k + 1) ys)) = take k xs @ drop (Suc k) xs"
    by (simp add: comp_def)
  with assms show ?thesis by (simp add: delete_at_def Let_def ys_def)
qed

lemma Until_le_1: "Until now t \<le> 1 \<longleftrightarrow> t - now \<le> 1"
  by (simp add: Until_def Let_def maxDuration_def minDuration_def)

lemma timerFire_goOff:
  "timerFire h s = map_option (callback (job (heap s ! h))) (goOff h s)"
  by (simp add: timerFire_def goOff_def)

lemma Stop_False_iff:
  "(\<exists>hp'. Stop h hp = Inr (False, hp')) \<longleftrightarrow> h < length hp \<and> status (hp ! h) \<noteq> Armed"
  by (auto simp: Stop_def)

section \<open>Reminders that are already due\<close>

lemma Add_due: "Until (clock s) (expiration r) \<le> 1 \<Longrightarrow> Add r s = Inr (sendReminder r s)"
  by (simp add: Add_def Let_def)

text \<open>
  Claim C8. A reminder whose expiration is in the past, or at most one nanosecond
  ahead, when \<^verbatim>\<open>Add\<close> is called is sent inside the call: \<^verbatim>\<open>Add\<close> returns with
  the sink invoked for it, and no timer has been made.
\<close>

theorem Add_due_delivers_inline:
  assumes "expiration r \<le> clock s + 1"
  shows "\<exists>s'. Add r s = Inr s' \<and> sent s' = sent s @ [r] \<and> heap s' = heap s"
proof -
  from assms have "Until (clock s) (expiration r) \<le> 1"
    by (simp add: Until_le_1)
  then have "Add r s = Inr (sendReminder r s)" by (rule Add_due)
  then show ?thesis by (simp add: sendReminder_def)
qed

theorem Add_due_delivers_inline_witness:
  "expiration overdue \<le> clock startup + 1 \<and>
   (\<exists>s'. Add overdue startup = Inr s' \<and> sent s' = sent startup @ [overdue] \<and>
         heap s' = heap startup)"
proof -
  have h: "expiration overdue \<le> clock startup + 1"
    by (simp add: overdue_def startup_def hour_def)
  from Add_due_delivers_inline [OF h] h show ?thesis by simp
qed

lemma Remove_ignores_sent:
  "map_sum id fst (Remove uid e (s\<lparr>sent := x\<rparr>)) = map_sum id fst (Remove uid e s)"
  by (simp add: Remove_def logPrint_def split: sum.splits option.splits prod.splits bool.splits)

text \<open>
  Claim C9. When the time until expiration is at most one nanosecond, \<^verbatim>\<open>Add\<close>
  sends the reminder (the sink is invoked for it, once) and leaves both slices as they
  were: the reminder is never stored, so the list command, a later \<^verbatim>\<open>Remove\<close>
  and the snapshot are what they would have been without it.
\<close>

theorem Add_due_leaves_store:
  assumes "Until (clock s) (expiration r) \<le> 1"
  shows "\<exists>s'. Add r s = Inr s' \<and> sent s' = sent s @ [r] \<and>
           reminders s' = reminders s \<and> timers s' = timers s \<and>
           ListFor uid s' = ListFor uid s \<and>
           map_sum id fst (Remove uid e s') = map_sum id fst (Remove uid e s) \<and>
           WriteTo Format s' = WriteTo Format s"
proof -
  from assms have "Add r s = Inr (sendReminder r s)" by (rule Add_due)
  moreover have "ListFor uid (sendReminder r s) = ListFor uid s"
    by (simp add: ListFor_def sendReminder_def)
  moreover have "map_sum id fst (Remove uid e (sendReminder r s)) = map_sum id fst (Remove uid e s)"
    unfolding sendReminder_def by (rule Remove_ignores_sent)
  moreover have "WriteTo Format (sendReminder r s) = WriteTo Format s"
    by (simp add: WriteTo_def sendReminder_def)
  ultimately show ?thesis by (simp add: sendReminder_def)
qed

theorem Add_due_leaves_store_witness:
  "Until (clock milkAndMom) (expiration overdue) \<le> 1 \<and>
   (\<exists>s'. Add overdue milkAndMom = Inr s' \<and> sent s' = [overdue] \<and>
         reminders s' = [buyMilk, callMom] \<and> timers s' = [0, 1] \<and>
         ListFor ''1001'' s' = ListFor ''1001'' milkAndMom \<and>
         map_sum id fst (Remove ''1001'' (expiration overdue) s') =
           map_sum id fst (Remove ''1001'' (expiration overdue) milkAndMom) \<and>
         WriteTo FormatRFC3339Nano s' = WriteTo FormatRFC3339Nano milkAndMom)"
proof -
  have h: "Until (clock milkAndMom) (expiration overdue) \<le> 1"
    by (simp add: Until_le_1 overdue_def milkAndMom_def startup_def hour_def)
  from Add_due_leaves_store [OF h, of "''1001''" "expiration overdue" FormatRFC3339Nano] h
  show ?thesis by (simp add: milkAndMom_def startup_def)
qed

section \<open>Cancelling\<close>

text \<open>
  Claim C10. Whenever \<^verbatim>\<open>Remove\<close> returns false, whichever of its three exits it
  takes, the two slices (and the timers) are as they were before the call.
\<close>

theorem Remove_false_no_effect:
  assumes "Remove uid e s = Inr (False, s')"
  shows "reminders s' = reminders s \<and> timers s' = timers s \<and> heap s' = heap s"
  using assms
  by (auto simp: Remove_def logPrint_def
           split: sum.splits option.splits prod.splits bool.splits if_splits)

theorem Remove_false_no_effect_witness:
  "Remove ''1002'' (expiration buyMilk) milkAndMom = Inr (False, logPrint NotFound milkAndMom) \<and>
   reminders (logPrint NotFound milkAndMom) = reminders milkAndMom \<and>
   timers (logPrint NotFound milkAndMom) = timers milkAndMom \<and>
   heap (logPrint NotFound milkAndMom) = heap milkAndMom"
proof -
  have h: "Remove ''1002'' (expiration buyMilk) milkAndMom = Inr (False, logPrint NotFound milkAndMom)"
    by code_simp
  from Remove_false_no_effect [OF h] h show ?thesis by simp
qed

text \<open>
  When \<^verbatim>\<open>Remove\<close> has found the record and \<^verbatim>\<open>Stop\<close> on its timer answers
  false (the timer has gone off already, or was stopped), \<^verbatim>\<open>Remove\<close> deletes
  nothing and returns false, after logging that the reminder is already triggering.
\<close>

lemma Remove_timer_gone_off:
  assumes "locate uid e (reminders s) = Inr (Some k)"
    and "k < length (timers s)"
    and "Stop (timers s ! k) (heap s) = Inr (False, hp)"
  shows "\<exists>s'. Remove uid e s = Inr (False, s') \<and> reminders s' = reminders s \<and>
           timers s' = timers s \<and> heap s' = heap s \<and> logs s' = logs s @ [AlreadyTriggering]"
  using assms by (simp add: Remove_def logPrint_def)

text \<open>
  Claim C6 asks that a cancellation that finds the timer already gone off removes
  nothing and reports failure, the record being removed by the function of the timer.
  The first half is what the code does; the second is not. A lone reminder is added,
  its timer goes off, and the cancellation arrives before the function of the timer
  has reached \<^verbatim>\<open>Remove\<close>: the cancellation is refused, and then the function of
  the timer, whose own \<^verbatim>\<open>Remove\<close> is refused in the same way, leaves the record
  and its timer in both slices. Nothing removes them any more.
\<close>

theorem refused_cancel_record_stays:
  "Add buyMilk startup = Inr milkOnly \<and>
   goOff 0 (advance hour milkOnly) = Some milkFiring \<and>
   Remove ''1001'' (expiration buyMilk) milkFiring
     = Inr (False, logPrint AlreadyTriggering milkFiring) \<and>
   callback buyMilk (logPrint AlreadyTriggering milkFiring)
     = Inr (milkFiring\<lparr>sent := [buyMilk], logs := [AlreadyTriggering, AlreadyTriggering]\<rparr>) \<and>
   reminders (milkFiring\<lparr>sent := [buyMilk], logs := [AlreadyTriggering, AlreadyTriggering]\<rparr>)
     = [buyMilk] \<and>
   timers (milkFiring\<lparr>sent := [buyMilk], logs := [AlreadyTriggering, AlreadyTriggering]\<rparr>)
     = [0]"
  by code_simp

section \<open>The two slices stay parallel\<close>

lemma list_all2_insert:
  assumes "list_all2 P xs ys" and "P x y"
  shows "list_all2 P (take i xs @ x # drop i xs) (take i ys @ y # drop i ys)"
proof -
  from assms(1) have "list_all2 P (take i xs) (take i ys)" by (rule list_all2_takeI)
  moreover from assms(1) have "list_all2 P (drop i xs) (drop i ys)" by (rule list_all2_dropI)
  with assms(2) have "list_all2 P (x # drop i xs) (y # drop i ys)" by simp
  ultimately show ?thesis by (rule list_all2_appendI)
qed

lemma list_all2_delete:
  assumes "list_all2 P xs ys"
  shows "list_all2 P (take k xs @ drop (Suc k) xs) (take k ys @ drop (Suc k) ys)"
proof -
  from assms have "list_all2 P (take k xs) (take k ys)" by (rule list_all2_takeI)
  moreover from assms have "list_all2 P (drop (Suc k) xs) (drop (Suc k) ys)"
    by (rule list_all2_dropI)
  ultimately show ?thesis by (rule list_all2_appendI)
qed

lemma locate_cases:
  "locate uid e rs = Inr None \<or> (\<exists>k. locate uid e rs = Inr (Some k) \<and> k < length rs)"
proof -
  define i where "i = Search (length rs) (\<lambda>n. userID (rs ! n) \<ge> uid)"
  define j where "j = Search (length rs) (\<lambda>n. userID (rs ! n) > uid)"
  define author where "author = take (j - i) (drop i rs)"
  define k where "k = Search (length author) (\<lambda>n. expiration (author ! n) < e)"
  have ij: "i \<le> j" unfolding i_def j_def by (rule Search_mono) simp
  have jn: "j \<le> length rs" unfolding j_def by (rule Search_le)
  have "k \<le> length author" unfolding k_def by (rule Search_le)
  with ij jn have kb: "k \<le> j - i" by (simp add: author_def)
  have unf: "locate uid e rs =
     (if j = i then Inr None
      else if j < i then Inl SliceBounds
      else if k = 0 \<or> expiration (author ! (k - 1)) \<noteq> e then Inr None
      else Inr (Some (k - 1 + i)))"
    unfolding locate_def Let_def i_def j_def author_def k_def ..
  show ?thesis
  proof (cases "j = i \<or> k = 0 \<or> expiration (author ! (k - 1)) \<noteq> e")
    case True
    with unf ij show ?thesis by auto
  next
    case False
    with unf ij have "locate uid e rs = Inr (Some (k - 1 + i))" by auto
    moreover from False kb ij jn have "k - 1 + i < length rs" by auto
    ultimately show ?thesis by blast
  qed
qed

lemma Add_paired:
  assumes "paired s"
  shows "\<exists>s'. Add r s = Inr s' \<and> paired s'"
proof (cases "Until (clock s) (expiration r) \<le> 1")
  case True
  then have "Add r s = Inr (sendReminder r s)" by (rule Add_due)
  moreover from assms have "paired (sendReminder r s)" by (simp add: paired_def sendReminder_def)
  ultimately show ?thesis by blast
next
  case False
  define i where "i = Search (length (reminders s)) (\<lambda>n. userID (reminders s ! n) > userID r)"
  define tm where "tm = \<lparr>status = Armed, deadline = clock s + Until (clock s) (expiration r), job = r\<rparr>"
  define P where "P = (\<lambda>r t. t < length (heap s) \<and> job (heap s ! t) = r)"
  define P' where "P' = (\<lambda>r t. t < length (heap s @ [tm]) \<and> job ((heap s @ [tm]) ! t) = r)"
  from assms have all: "list_all2 P (reminders s) (timers s)" by (simp add: paired_def P_def)
  then have len: "length (timers s) = length (reminders s)" by (simp add: list_all2_lengthD)
  have ib: "i \<le> length (reminders s)" unfolding i_def by (rule Search_le)
  have ins_r: "insert_at i r (reminders s) = Inr (take i (reminders s) @ r # drop i (reminders s))"
    using ib by (rule insert_at_eq)
  have ins_t: "insert_at i (length (heap s)) (timers s)
                 = Inr (take i (timers s) @ length (heap s) # drop i (timers s))"
    using ib len by (intro insert_at_eq) simp
  have eq: "Add r s = Inr (s\<lparr>reminders := take i (reminders s) @ r # drop i (reminders s),
                              timers := take i (timers s) @ length (heap s) # drop i (timers s),
                              heap := heap s @ [tm]\<rparr>)"
    using False ins_r ins_t unfolding Add_def Let_def i_def [symmetric] tm_def [symmetric]
    by simp
  have "list_all2 P' (reminders s) (timers s)"
    using all by (rule list_all2_mono) (auto simp: P_def P'_def nth_append)
  moreover have "P' r (length (heap s))" by (simp add: P'_def tm_def)
  ultimately have "list_all2 P' (take i (reminders s) @ r # drop i (reminders s))
                                (take i (timers s) @ length (heap s) # drop i (timers s))"
    by (rule list_all2_insert)
  then have "paired (s\<lparr>reminders := take i (reminders s) @ r # drop i (reminders s),
                        timers := take i (timers s) @ length (heap s) # drop i (timers s),
                        heap := heap s @ [tm]\<rparr>)"
    by (simp add: paired_def P'_def)
  with eq show ?thesis by blast
qed

lemma job_status_update:
  "t < length hp \<Longrightarrow> job (hp[h := (hp ! h)\<lparr>status := st\<rparr>] ! t) = job (hp ! t)"
  by (cases "t = h") simp_all

lemma paired_heap_status:
  assumes "paired s" and "h < length (heap s)"
  shows "paired (s\<lparr>heap := (heap s)[h := (heap s ! h)\<lparr>status := st\<rparr>]\<rparr>)"
proof -
  have "list_all2 (\<lambda>r t. t < length ((heap s)[h := (heap s ! h)\<lparr>status := st\<rparr>]) \<and>
                          job ((heap s)[h := (heap s ! h)\<lparr>status := st\<rparr>] ! t) = r)
          (reminders s) (timers s)"
    using assms(1) [unfolded paired_def]
    by (rule list_all2_mono) (simp add: job_status_update)
  then show ?thesis by (simp add: paired_def)
qed

lemma Remove_paired:
  assumes "paired s"
  shows "\<exists>b s'. Remove uid e s = Inr (b, s') \<and> paired s'"
proof -
  from assms have all: "list_all2 (\<lambda>r t. t < length (heap s) \<and> job (heap s ! t) = r) (reminders s) (timers s)"
    by (simp add: paired_def)
  then have len: "length (timers s) = length (reminders s)" by (simp add: list_all2_lengthD)
  from locate_cases [of uid e "reminders s"] show ?thesis
  proof
    assume "locate uid e (reminders s) = Inr None"
    then have "Remove uid e s = Inr (False, logPrint NotFound s)" by (simp add: Remove_def)
    moreover from assms have "paired (logPrint NotFound s)" by (simp add: paired_def logPrint_def)
    ultimately show ?thesis by blast
  next
    assume "\<exists>k. locate uid e (reminders s) = Inr (Some k) \<and> k < length (reminders s)"
    then obtain k where loc: "locate uid e (reminders s) = Inr (Some k)" and kb: "k < length (reminders s)"
      by blast
    from all kb len have hb: "timers s ! k < length (heap s)"
      by (simp add: list_all2_conv_all_nth)
    show ?thesis
    proof (cases "status (heap s ! (timers s ! k)) = Armed")
      case False
      with hb have "Stop (timers s ! k) (heap s) = Inr (False, heap s)" by (simp add: Stop_def)
      with loc kb len have "Remove uid e s = Inr (False, logPrint AlreadyTriggering s)"
        by (simp add: Remove_def)
      moreover from assms have "paired (logPrint AlreadyTriggering s)" by (simp add: paired_def logPrint_def)
      ultimately show ?thesis by blast
    next
      case True
      define hp where "hp = (heap s)[timers s ! k := (heap s ! (timers s ! k))\<lparr>status := Stopped\<rparr>]"
      define s1 where "s1 = s\<lparr>heap := hp\<rparr>"
      from True hb have st: "Stop (timers s ! k) (heap s) = Inr (True, hp)" by (simp add: Stop_def hp_def)
      from kb have dr: "delete_at k (reminders s) = Inr (take k (reminders s) @ drop (Suc k) (reminders s))"
        by (rule delete_at_eq)
      from kb len have dt: "delete_at k (timers s) = Inr (take k (timers s) @ drop (Suc k) (timers s))"
        by (intro delete_at_eq) simp
      from loc kb len st dr dt have eq: "Remove uid e s = Inr (True, logPrint (Removed uid e)
           (s\<lparr>reminders := take k (reminders s) @ drop (Suc k) (reminders s),
              timers := take k (timers s) @ drop (Suc k) (timers s), heap := hp\<rparr>))"
        by (simp add: Remove_def)
      from paired_heap_status [OF assms hb, of Stopped] have "paired s1" by (simp add: s1_def hp_def)
      then have "list_all2 (\<lambda>r t. t < length hp \<and> job (hp ! t) = r) (reminders s) (timers s)"
        by (simp add: paired_def s1_def)
      then have "list_all2 (\<lambda>r t. t < length hp \<and> job (hp ! t) = r)
                   (take k (reminders s) @ drop (Suc k) (reminders s))
                   (take k (timers s) @ drop (Suc k) (timers s))"
        by (rule list_all2_delete)
      then have "paired (logPrint (Removed uid e)
           (s\<lparr>reminders := take k (reminders s) @ drop (Suc k) (reminders s),
              timers := take k (timers s) @ drop (Suc k) (timers s), heap := hp\<rparr>))"
        by (simp add: paired_def logPrint_def)
      with eq show ?thesis by blast
    qed
  qed
qed


lemma callback_paired:
  assumes "paired s"
  shows "\<exists>s'. callback r s = Inr s' \<and> paired s'"
proof -
  from assms have "paired (sendReminder r s)" by (simp add: paired_def sendReminder_def)
  from Remove_paired [OF this, of "userID r" "expiration r"] show ?thesis
    by (auto simp: callback_def)
qed

lemma timerFire_paired:
  assumes "paired s" and "timerFire h s = Some res"
  shows "\<exists>s'. res = Inr s' \<and> paired s'"
proof -
  from assms(2) have hb: "h < length (heap s)"
    and res: "res = callback (job (heap s ! h)) (s\<lparr>heap := (heap s)[h := (heap s ! h)\<lparr>status := Fired\<rparr>]\<rparr>)"
    by (auto simp: timerFire_def split: if_splits)
  from paired_heap_status [OF assms(1) hb, of Fired] callback_paired res show ?thesis by simp
qed

lemma stopAll_ok:
  assumes "\<forall>t\<in>set ts. t < length hp"
  shows "\<exists>hp'. stopAll ts hp = Inr hp' \<and> length hp' = length hp \<and>
           (\<forall>t<length hp. job (hp' ! t) = job (hp ! t)) \<and>
           (\<forall>t<length hp. status (hp ! t) \<noteq> Armed \<or> t \<in> set ts \<longrightarrow> status (hp' ! t) \<noteq> Armed)"
  using assms
proof (induction ts arbitrary: hp)
  case Nil
  then show ?case by simp
next
  case (Cons t ts)
  define hp1 where "hp1 = (if status (hp ! t) = Armed then hp[t := (hp ! t)\<lparr>status := Stopped\<rparr>] else hp)"
  from Cons.prems have tb: "t < length hp" by simp
  then have st: "\<exists>b. Stop t hp = Inr (b, hp1)" by (auto simp: Stop_def hp1_def)
  have l1: "length hp1 = length hp" by (simp add: hp1_def)
  have j1: "\<forall>u<length hp. job (hp1 ! u) = job (hp ! u)"
    by (simp add: hp1_def job_status_update)
  have s1: "\<forall>u<length hp. status (hp ! u) \<noteq> Armed \<or> u = t \<longrightarrow> status (hp1 ! u) \<noteq> Armed"
    using tb by (auto simp: hp1_def nth_list_update)
  from Cons.prems l1 have "\<forall>u\<in>set ts. u < length hp1" by simp
  from Cons.IH [OF this] obtain hp' where r: "stopAll ts hp1 = Inr hp'" and l2: "length hp' = length hp1"
    and j2: "\<forall>u<length hp1. job (hp' ! u) = job (hp1 ! u)"
    and s2: "\<forall>u<length hp1. status (hp1 ! u) \<noteq> Armed \<or> u \<in> set ts \<longrightarrow> status (hp' ! u) \<noteq> Armed"
    by blast
  from st r have "stopAll (t # ts) hp = Inr hp'" by auto
  moreover from l1 l2 have "length hp' = length hp" by simp
  moreover from j1 j2 l1 have "\<forall>u<length hp. job (hp' ! u) = job (hp ! u)" by simp
  moreover from s1 s2 l1 have "\<forall>u<length hp. status (hp ! u) \<noteq> Armed \<or> u \<in> set (t # ts) \<longrightarrow> status (hp' ! u) \<noteq> Armed"
    by auto
  ultimately show ?case by blast
qed

lemma paired_handles: "paired s \<Longrightarrow> \<forall>t\<in>set (timers s). t < length (heap s)"
  by (auto simp: paired_def list_all2_conv_all_nth in_set_conv_nth)

lemma stopAll_paired:
  assumes "paired s"
  shows "\<exists>hp. stopAll (timers s) (heap s) = Inr hp \<and> paired (s\<lparr>heap := hp\<rparr>) \<and>
           (\<forall>t\<in>set (timers s). status (hp ! t) \<noteq> Armed)"
proof -
  from stopAll_ok [OF paired_handles [OF assms]] obtain hp where r: "stopAll (timers s) (heap s) = Inr hp"
    and l: "length hp = length (heap s)"
    and j: "\<forall>t<length (heap s). job (hp ! t) = job (heap s ! t)"
    and st: "\<forall>t<length (heap s). status (heap s ! t) \<noteq> Armed \<or> t \<in> set (timers s) \<longrightarrow> status (hp ! t) \<noteq> Armed"
    by blast
  have "list_all2 (\<lambda>r t. t < length hp \<and> job (hp ! t) = r) (reminders s) (timers s)"
    using assms [unfolded paired_def] by (rule list_all2_mono) (simp add: l j)
  then have "paired (s\<lparr>heap := hp\<rparr>)" by (simp add: paired_def)
  moreover from st paired_handles [OF assms] have "\<forall>t\<in>set (timers s). status (hp ! t) \<noteq> Armed" by blast
  ultimately show ?thesis using r by blast
qed

lemma readRecords_paired:
  "paired s \<Longrightarrow> readRecords Parse rr s = Inr (err, s') \<Longrightarrow> paired s'"
proof (induction Parse rr s arbitrary: err s' rule: readRecords.induct)
  case (1 Parse rr s)
  show ?case
  proof (cases "Read rr")
    case EOF
    with "1.prems" show ?thesis by (simp add: readRecords.simps [of Parse rr s])
  next
    case (ReadError e)
    with "1.prems" show ?thesis by (simp add: readRecords.simps [of Parse rr s])
  next
    case (Record fields rr')
    show ?thesis
    proof (cases "3 < length fields \<and> Parse (fields ! 1) \<noteq> None \<and> Parse (fields ! 2) \<noteq> None")
      case False
      with Record "1.prems" show ?thesis
        by (auto simp: readRecords.simps [of Parse rr s] split: if_splits option.splits)
    next
      case True
      then obtain c e where c: "Parse (fields ! 1) = Some c" and e: "Parse (fields ! 2) = Some e"
        and len: "3 < length fields" by auto
      define r where "r = \<lparr>userID = fields ! 0, creation = c, expiration = e, message = fields ! 3\<rparr>"
      from Add_paired [OF "1.prems"(1), of r] obtain s1 where a: "Add r s = Inr s1" and p1: "paired s1"
        by blast
      from len have ne: "fields \<noteq> []" by auto
      from Record c e len ne a "1.prems"(2) have "readRecords Parse rr' s1 = Inr (err, s')"
        by (simp add: readRecords.simps [of Parse rr s] r_def)
      from "1.IH" [OF Record _ _ c _ e _ a [unfolded r_def] p1 this] len ne show ?thesis by simp
    qed
  qed
qed


lemma ReadFrom_paired:
  "paired s \<Longrightarrow> ReadFrom Parse r s = Inr (err, s') \<Longrightarrow> paired s'"
  unfolding ReadFrom_def by (rule readRecords_paired)

lemma constructRMState_paired:
  assumes "paired s" and "constructRMState Parse f s = Inr s'"
  shows "paired s'"
proof (cases "ReadFrom Parse f s")
  case (Inl p)
  with assms(2) show ?thesis by (simp add: constructRMState_def)
next
  case (Inr x)
  obtain err s1 where x: "x = (err, s1)" by (cases x)
  show ?thesis
  proof (cases err)
    case None
    with Inr x assms(2) have "s' = s1" by (simp add: constructRMState_def)
    with ReadFrom_paired [OF assms(1)] Inr x show ?thesis by simp
  next
    case (Some e)
    with Inr x assms(2) have "reminders s' = [] \<and> timers s' = []"
      by (auto simp: constructRMState_def logPrint_def split: sum.splits)
    then show ?thesis by (simp add: paired_def)
  qed
qed

lemma deconstructRMState_paired:
  assumes "paired s"
  shows "\<exists>blob s'. deconstructRMState Format s = Inr (blob, s') \<and> paired s'"
proof -
  from stopAll_paired [OF assms] obtain hp where "stopAll (timers s) (heap s) = Inr hp"
    and "paired (s\<lparr>heap := hp\<rparr>)" by blast
  then show ?thesis by (simp add: deconstructRMState_def Let_def)
qed

lemma paired_length: "paired s \<Longrightarrow> length (reminders s) = length (timers s)"
  by (simp add: paired_def list_all2_lengthD)

lemma paired_startup: "paired startup"
  by (simp add: paired_def startup_def)

text \<open>
  Claim C7. Every operation on the store keeps the two slices parallel (same length,
  same pairing of record and timer at each index): \<^verbatim>\<open>Add\<close>, \<^verbatim>\<open>Remove\<close>, a timer
  going off and its function removing, \<^verbatim>\<open>ReadFrom\<close>, the restore with its reset on
  error, and the shutdown. From a paired state \<^verbatim>\<open>Add\<close>, \<^verbatim>\<open>Remove\<close>, the timer
  function and the shutdown never panic, and whenever the restore returns, with an
  error or without, the state it leaves is paired.
\<close>

theorem slices_stay_paired:
  assumes "paired s"
  shows "(\<exists>s'. Add r s = Inr s' \<and> paired s') \<and>
         (\<exists>b s'. Remove uid e s = Inr (b, s') \<and> paired s') \<and>
         (\<forall>h res. timerFire h s = Some res \<longrightarrow> (\<exists>s'. res = Inr s' \<and> paired s')) \<and>
         (\<forall>err s'. ReadFrom Parse f s = Inr (err, s') \<longrightarrow> paired s') \<and>
         (\<forall>s'. constructRMState Parse f s = Inr s' \<longrightarrow> paired s') \<and>
         (\<exists>blob s'. deconstructRMState Format s = Inr (blob, s') \<and> paired s')"
proof (intro conjI allI impI)
  show "\<exists>s'. Add r s = Inr s' \<and> paired s'" using assms by (rule Add_paired)
  show "\<exists>b s'. Remove uid e s = Inr (b, s') \<and> paired s'" using assms by (rule Remove_paired)
  show "\<exists>s'. res = Inr s' \<and> paired s'" if "timerFire h s = Some res" for h res
    using assms that by (rule timerFire_paired)
  show "paired s'" if "ReadFrom Parse f s = Inr (err, s')" for err s'
    using assms that by (rule ReadFrom_paired)
  show "paired s'" if "constructRMState Parse f s = Inr s'" for s'
    using assms that by (rule constructRMState_paired)
  show "\<exists>blob s'. deconstructRMState Format s = Inr (blob, s') \<and> paired s'"
    using assms by (rule deconstructRMState_paired)
qed

theorem slices_stay_paired_witness:
  "paired milkGoneOff \<and>
   (\<exists>s'. Add callMom milkGoneOff = Inr s' \<and> paired s') \<and>
   (\<exists>b s'. Remove ''1001'' (expiration callMom) milkGoneOff = Inr (b, s') \<and> paired s') \<and>
   (\<exists>s'. timerFire 1 (advance hour milkGoneOff) = Some (Inr s') \<and> paired s') \<and>
   (\<exists>s'. ReadFrom ParseRFC3339Nano (WriteTo FormatRFC3339Nano milkAndMom) milkGoneOff
            = Inr (None, s') \<and> paired s') \<and>
   (\<exists>s'. constructRMState ParseRFC3339Nano (''1001,soon,later,x'' @ [CHR 0x0A]) milkGoneOff
            = Inr s' \<and> paired s') \<and>
   (\<exists>blob s'. deconstructRMState FormatRFC3339Nano milkGoneOff = Inr (blob, s') \<and> paired s')"
proof -
  have p: "paired milkGoneOff" by code_simp
  have p': "paired (advance hour milkGoneOff)" by code_simp
  have f: "timerFire 1 (advance hour milkGoneOff) \<noteq> None" by code_simp
  have r: "fst (projr (ReadFrom ParseRFC3339Nano (WriteTo FormatRFC3339Nano milkAndMom) milkGoneOff)) = None \<and>
           \<not> isl (ReadFrom ParseRFC3339Nano (WriteTo FormatRFC3339Nano milkAndMom) milkGoneOff)"
    by code_simp
  have c: "\<not> isl (constructRMState ParseRFC3339Nano (''1001,soon,later,x'' @ [CHR 0x0A]) milkGoneOff)"
    by code_simp
  note w = slices_stay_paired [OF p, of callMom "''1001''" "expiration callMom"
             ParseRFC3339Nano "WriteTo FormatRFC3339Nano milkAndMom" FormatRFC3339Nano]
  note w2 = slices_stay_paired [OF p, of callMom "''1001''" "expiration callMom"
             ParseRFC3339Nano "''1001,soon,later,x'' @ [CHR 0x0A]" FormatRFC3339Nano]
  note w3 = slices_stay_paired [OF p', of callMom "''1001''" "expiration callMom"
             ParseRFC3339Nano "[]" FormatRFC3339Nano]
  from f obtain res where res: "timerFire 1 (advance hour milkGoneOff) = Some res" by blast
  with w3 have c3: "\<exists>s'. timerFire 1 (advance hour milkGoneOff) = Some (Inr s') \<and> paired s'" by blast
  from r obtain s1 where "ReadFrom ParseRFC3339Nano (WriteTo FormatRFC3339Nano milkAndMom) milkGoneOff = Inr (None, s1)"
    by (cases "ReadFrom ParseRFC3339Nano (WriteTo FormatRFC3339Nano milkAndMom) milkGoneOff") auto
  with w have c4: "\<exists>s'. ReadFrom ParseRFC3339Nano (WriteTo FormatRFC3339Nano milkAndMom) milkGoneOff
            = Inr (None, s') \<and> paired s'" by blast
  from c obtain s2 where "constructRMState ParseRFC3339Nano (''1001,soon,later,x'' @ [CHR 0x0A]) milkGoneOff = Inr s2"
    by (cases "constructRMState ParseRFC3339Nano (''1001,soon,later,x'' @ [CHR 0x0A]) milkGoneOff") auto
  with w2 have c5: "\<exists>s'. constructRMState ParseRFC3339Nano (''1001,soon,later,x'' @ [CHR 0x0A]) milkGoneOff
            = Inr s' \<and> paired s'" by blast
  from p w c3 c4 c5 show ?thesis by blast
qed

section \<open>Cancelling among several reminders\<close>

text \<open>
  Claim C2 asks that a reminder added with a future expiration can be cancelled before
  it is due, whatever else is stored. The code does not do that: with "buy milk" in one
  hour and "call mom" in two, added in this order, \<^verbatim>\<open>Remove\<close> for the first answers
  false (its binary search by expiration over the user's range is right only when the
  range is in descending order of expiration, and \<^verbatim>\<open>Add\<close> stores a user's
  reminders in the order they arrive), the timer stays armed, and an hour later the
  sink is invoked with "buy milk". Nor can a third reminder, due in three hours, be
  cancelled right after it has been added.
\<close>

theorem cancel_first_of_two_fails:
  "AddAll [buyMilk, callMom] startup = Inr milkAndMom \<and>
   clock milkAndMom < expiration buyMilk \<and>
   Remove ''1001'' (expiration buyMilk) milkAndMom = Inr (False, logPrint NotFound milkAndMom) \<and>
   map_option (map_sum id sent) (timerFire 0 (advance hour (logPrint NotFound milkAndMom)))
     = Some (Inr [buyMilk]) \<and>
   Add walkDog milkAndMom = Inr threePending \<and>
   Remove ''1001'' (expiration walkDog) threePending = Inr (False, logPrint NotFound threePending)"
  by code_simp

section \<open>The order of the store\<close>

text \<open>
  What \<^verbatim>\<open>Add\<close> does keep: on a range where the predicate, once true, stays true,
  \<^verbatim>\<open>sort.Search\<close> returns the first index where it holds; so \<^verbatim>\<open>Add\<close> keeps the
  store ordered by \<^verbatim>\<open>userID\<close>, and on such a store the list command shows exactly
  the records of the user, in the order they are stored.
\<close>

lemma bsearch_partition:
  assumes "\<And>a b. lo \<le> a \<Longrightarrow> a \<le> b \<Longrightarrow> b < hi \<Longrightarrow> f a \<Longrightarrow> f b"
  shows "(\<forall>k. lo \<le> k \<and> k < bsearch f lo hi \<longrightarrow> \<not> f k) \<and>
         (\<forall>k. bsearch f lo hi \<le> k \<and> k < hi \<longrightarrow> f k)"
  using assms
proof (induction f lo hi rule: bsearch.induct)
  case (1 f i j)
  show ?case
  proof (cases "i < j")
    case False
    then have "bsearch f i j = i" by (subst bsearch.simps) simp
    with False show ?thesis by auto
  next
    case True
    define h where "h = (i + j) div 2"
    from True have hb: "i \<le> h" "h < j" by (auto simp: h_def)
    show ?thesis
    proof (cases "f h")
      case False
      from True False have eq: "bsearch f i j = bsearch f (h + 1) j"
        by (simp add: bsearch.simps [of f i j] h_def Let_def)
      have mono: "f b" if "h + 1 \<le> a" "a \<le> b" "b < j" "f a" for a b
      proof (rule "1.prems" [of a b])
        from that hb show "i \<le> a" by simp
      qed (use that in simp_all)
      from "1.IH"(1) [OF True h_def False mono]
      have ih: "(\<forall>k. h + 1 \<le> k \<and> k < bsearch f (h + 1) j \<longrightarrow> \<not> f k) \<and>
                (\<forall>k. bsearch f (h + 1) j \<le> k \<and> k < j \<longrightarrow> f k)" by simp
      have low: "\<not> f k" if "i \<le> k" "k \<le> h" for k
      proof
        assume "f k"
        from "1.prems" [OF that(1) that(2) hb(2) this] False show False by simp
      qed
      have "\<not> f k" if "i \<le> k" "k < bsearch f (h + 1) j" for k
        using that low [of k] ih by (cases "k \<le> h") auto
      with ih eq show ?thesis by simp
    next
      case fh: True
      from True fh have eq: "bsearch f i j = bsearch f i h"
        by (simp add: bsearch.simps [of f i j] h_def Let_def)
      have mono: "f b" if "i \<le> a" "a \<le> b" "b < h" "f a" for a b
      proof (rule "1.prems" [of a b])
        from that hb show "b < j" by simp
      qed (use that in simp_all)
      from "1.IH"(2) [OF True h_def _ mono] fh
      have ih: "(\<forall>k. i \<le> k \<and> k < bsearch f i h \<longrightarrow> \<not> f k) \<and>
                (\<forall>k. bsearch f i h \<le> k \<and> k < h \<longrightarrow> f k)" by simp
      have high: "f k" if "h \<le> k" "k < j" for k
        using "1.prems" [OF hb(1) that(1) that(2) fh] .
      have "f k" if "bsearch f i h \<le> k" "k < j" for k
        using that high [of k] ih by (cases "h \<le> k") auto
      with ih eq show ?thesis by simp
    qed
  qed
qed

lemma Search_partition:
  assumes "\<And>a b. a \<le> b \<Longrightarrow> b < n \<Longrightarrow> f a \<Longrightarrow> f b"
  shows "(\<forall>k < Search n f. \<not> f k) \<and> (\<forall>k. Search n f \<le> k \<and> k < n \<longrightarrow> f k)"
proof -
  have "f b" if "0 \<le> a" "a \<le> b" "b < n" "f a" for a b
    using assms [OF that(2) that(3) that(4)] .
  from bsearch_partition [of 0 n f, OF this] show ?thesis by (simp add: Search_def)
qed

lemma sorted_nth_le:
  "sorted (map userID rs) \<Longrightarrow> a \<le> b \<Longrightarrow> b < length rs \<Longrightarrow> userID (rs ! a) \<le> userID (rs ! b)"
  using sorted_nth_mono [of "map userID rs" a b] by simp

lemma Search_after_user:
  assumes "sorted (map userID rs)"
    and i_def: "i = Search (length rs) (\<lambda>n. userID (rs ! n) > u)"
  shows "(\<forall>r \<in> set (take i rs). userID r \<le> u) \<and> (\<forall>r \<in> set (drop i rs). u < userID r)"
proof -
  have mono: "u < userID (rs ! b)" if "a \<le> b" "b < length rs" "u < userID (rs ! a)" for a b
    using that(3) sorted_nth_le [OF assms(1) that(1,2)] by (rule less_le_trans)
  have part: "(\<forall>k<i. \<not> u < userID (rs ! k)) \<and> (\<forall>k. i \<le> k \<and> k < length rs \<longrightarrow> u < userID (rs ! k))"
    unfolding i_def by (rule Search_partition) (rule mono)
  have ib: "i \<le> length rs" unfolding i_def by (rule Search_le)
  have "userID r \<le> u" if "r \<in> set (take i rs)" for r
  proof -
    from that obtain k where k: "k < length (take i rs)" and r: "take i rs ! k = r"
      unfolding in_set_conv_nth by blast
    from k have ki: "k < i" by simp
    with r have "rs ! k = r" by simp
    moreover from part ki have "\<not> u < userID (rs ! k)" by blast
    ultimately show ?thesis by (simp add: not_less)
  qed
  moreover have "u < userID r" if "r \<in> set (drop i rs)" for r
  proof -
    from that obtain k where k: "k < length (drop i rs)" and r: "drop i rs ! k = r"
      unfolding in_set_conv_nth by blast
    from k have ki: "i + k < length rs" by simp
    with r ib have "rs ! (i + k) = r" by simp
    moreover from part ki have "u < userID (rs ! (i + k))" by simp
    ultimately show ?thesis by simp
  qed
  ultimately show ?thesis by blast
qed

lemma Search_before_user:
  assumes "sorted (map userID rs)"
    and i_def: "i = Search (length rs) (\<lambda>n. userID (rs ! n) \<ge> u)"
  shows "(\<forall>r \<in> set (take i rs). userID r < u) \<and> (\<forall>r \<in> set (drop i rs). u \<le> userID r)"
proof -
  have mono: "u \<le> userID (rs ! b)" if "a \<le> b" "b < length rs" "u \<le> userID (rs ! a)" for a b
    using that(3) sorted_nth_le [OF assms(1) that(1,2)] by (rule order_trans)
  have part: "(\<forall>k<i. \<not> u \<le> userID (rs ! k)) \<and> (\<forall>k. i \<le> k \<and> k < length rs \<longrightarrow> u \<le> userID (rs ! k))"
    unfolding i_def by (rule Search_partition) (rule mono)
  have ib: "i \<le> length rs" unfolding i_def by (rule Search_le)
  have "userID r < u" if "r \<in> set (take i rs)" for r
  proof -
    from that obtain k where k: "k < length (take i rs)" and r: "take i rs ! k = r"
      unfolding in_set_conv_nth by blast
    from k have ki: "k < i" by simp
    with r have "rs ! k = r" by simp
    moreover from part ki have "\<not> u \<le> userID (rs ! k)" by blast
    ultimately show ?thesis by (simp add: not_le)
  qed
  moreover have "u \<le> userID r" if "r \<in> set (drop i rs)" for r
  proof -
    from that obtain k where k: "k < length (drop i rs)" and r: "drop i rs ! k = r"
      unfolding in_set_conv_nth by blast
    from k have ki: "i + k < length rs" by simp
    with r ib have "rs ! (i + k) = r" by simp
    moreover from part ki have "u \<le> userID (rs ! (i + k))" by simp
    ultimately show ?thesis by simp
  qed
  ultimately show ?thesis by blast
qed

lemma Add_keeps_userID_order:
  assumes "sorted (map userID (reminders s))" and "Add r s = Inr s'"
  shows "sorted (map userID (reminders s'))"
proof (cases "Until (clock s) (expiration r) \<le> 1")
  case True
  with assms(2) have "s' = sendReminder r s" by (simp add: Add_due)
  with assms(1) show ?thesis by (simp add: sendReminder_def)
next
  case False
  define i where "i = Search (length (reminders s)) (\<lambda>n. userID (reminders s ! n) > userID r)"
  have ib: "i \<le> length (reminders s)" unfolding i_def by (rule Search_le)
  from False assms(2) insert_at_eq [OF ib, of r]
  have rs': "reminders s' = take i (reminders s) @ r # drop i (reminders s)"
    by (auto simp: Add_def Let_def i_def [symmetric] split: sum.splits)
  from Search_after_user [OF assms(1) i_def]
  have lo: "\<forall>x \<in> set (take i (reminders s)). userID x \<le> userID r"
    and hi: "\<forall>x \<in> set (drop i (reminders s)). userID r < userID x"
    by simp_all
  from assms(1) have "sorted (map userID (take i (reminders s) @ drop i (reminders s)))" by simp
  then have st: "sorted (map userID (take i (reminders s)))" and sd: "sorted (map userID (drop i (reminders s)))"
    and cross: "\<forall>x \<in> set (take i (reminders s)). \<forall>y \<in> set (drop i (reminders s)). userID x \<le> userID y"
    unfolding map_append sorted_append by auto
  from lo hi st sd cross have "sorted (map userID (take i (reminders s) @ r # drop i (reminders s)))"
    unfolding map_append sorted_append by (auto simp: less_imp_le)
  with rs' show ?thesis by simp
qed

lemma AddAll_userID_order:
  "sorted (map userID (reminders s)) \<Longrightarrow> AddAll rs s = Inr s' \<Longrightarrow> sorted (map userID (reminders s'))"
proof (induction rs arbitrary: s)
  case Nil
  then show ?case by simp
next
  case (Cons r rs)
  from Cons.prems(2) obtain s1 where a: "Add r s = Inr s1" and b: "AddAll rs s1 = Inr s'"
    by (auto split: sum.splits)
  from Add_keeps_userID_order [OF Cons.prems(1) a] b show ?case by (rule Cons.IH)
qed

lemma ListFor_is_filter:
  assumes "sorted (map userID (reminders s))"
  shows "ListFor uid s = Inr (filter (\<lambda>r. userID r = uid) (reminders s))"
proof -
  define rs where "rs = reminders s"
  define i where "i = Search (length rs) (\<lambda>n. userID (rs ! n) \<ge> uid)"
  define j where "j = Search (length rs) (\<lambda>n. userID (rs ! n) > uid)"
  have ij: "i \<le> j" unfolding i_def j_def by (rule Search_mono) simp
  have jn: "j \<le> length rs" unfolding j_def by (rule Search_le)
  from assms have srt: "sorted (map userID rs)" by (simp add: rs_def)
  from Search_before_user [OF srt i_def]
  have bi: "\<forall>r \<in> set (take i rs). userID r < uid" and ai: "\<forall>r \<in> set (drop i rs). uid \<le> userID r"
    by simp_all
  from Search_after_user [OF srt j_def]
  have bj: "\<forall>r \<in> set (take j rs). userID r \<le> uid" and aj: "\<forall>r \<in> set (drop j rs). uid < userID r"
    by simp_all
  define mid where "mid = take (j - i) (drop i rs)"
  have split: "rs = take i rs @ mid @ drop j rs"
  proof -
    have "drop i rs = take (j - i) (drop i rs) @ drop (j - i) (drop i rs)"
      by (rule append_take_drop_id [symmetric])
    moreover have "drop (j - i) (drop i rs) = drop j rs" using ij by simp
    ultimately have "drop i rs = mid @ drop j rs" by (simp only: mid_def)
    then have "take i rs @ drop i rs = take i rs @ mid @ drop j rs" by simp
    then show ?thesis by simp
  qed
  have midset: "\<forall>r \<in> set mid. userID r = uid"
  proof
    fix r assume r: "r \<in> set mid"
    then have "r \<in> set (drop i rs)" unfolding mid_def by (rule in_set_takeD)
    with ai have 1: "uid \<le> userID r" by blast
    have "mid = drop i (take j rs)" using ij by (simp add: mid_def drop_take)
    with r have "r \<in> set (take j rs)" by (auto dest: in_set_dropD)
    with bj have "userID r \<le> uid" by blast
    with 1 show "userID r = uid" by simp
  qed
  have f1: "filter (\<lambda>r. userID r = uid) (take i rs) = []" using bi by (auto simp: filter_empty_conv)
  have f2: "filter (\<lambda>r. userID r = uid) mid = mid" using midset by (simp add: filter_id_conv)
  have f3: "filter (\<lambda>r. userID r = uid) (drop j rs) = []" using aj by (auto simp: filter_empty_conv)
  have "filter (\<lambda>r. userID r = uid) rs = filter (\<lambda>r. userID r = uid) (take i rs @ mid @ drop j rs)"
    using split by simp
  also have "\<dots> = mid" using f1 f2 f3 by simp
  finally have fm: "filter (\<lambda>r. userID r = uid) rs = mid" .
  have "ListFor uid s = (if j = i then Inr [] else Inr mid)"
    using ij unfolding ListFor_def Let_def rs_def [symmetric] i_def [symmetric] j_def [symmetric] mid_def
    by auto
  moreover have "j = i \<Longrightarrow> mid = []" by (simp add: mid_def)
  ultimately show ?thesis using fm rs_def by auto
qed

text \<open>
  Claim C3 asks that after any run of \<^verbatim>\<open>Add\<close> calls the store is ordered by
  \<^verbatim>\<open>userID\<close> and then by expiration, so that the list command shows a user's
  reminders in expiration order. \<^verbatim>\<open>Add\<close> searches by \<^verbatim>\<open>userID\<close> only and puts
  the new record at the end of the user's range: added later, the reminder that is due
  earlier is stored and listed second.
\<close>

theorem later_then_earlier_unsorted:
  "AddAll [callMom, buyMilk] startup = Inr momThenMilk \<and>
   ListFor ''1001'' momThenMilk = Inr [callMom, buyMilk] \<and>
   expiration buyMilk < expiration callMom"
  by code_simp

section \<open>What the timer function removes\<close>

text \<open>
  The function of a timer never removes the record the timer was made for: when its
  \<^verbatim>\<open>Remove\<close> finds that record, \<^verbatim>\<open>Stop\<close> on the timer, which has gone off,
  answers false and \<^verbatim>\<open>Remove\<close> leaves at "already triggering".
\<close>

lemma callback_record_of_fired_timer_stays:
  assumes "locate (userID r) (expiration r) (reminders s) = Inr (Some k)"
    and "k < length (timers s)"
    and "timers s ! k < length (heap s)"
    and "status (heap s ! (timers s ! k)) \<noteq> Armed"
  shows "callback r s = Inr (s\<lparr>sent := sent s @ [r], logs := logs s @ [AlreadyTriggering]\<rparr>)"
  using assms
  by (simp add: callback_def Remove_def sendReminder_def logPrint_def Stop_def)

text \<open>
  Claim C4 asks that the function of a timer removes the record of that timer, found
  by identity, and that a record not found then is a fatal error. The earlier revisions
  of \<^verbatim>\<open>Add\<close> in \<^verbatim>\<open>main.go\<close> did both (a loop comparing pointers, and
  \<^verbatim>\<open>logger.Panic\<close>); the last one calls \<^verbatim>\<open>Remove\<close> with the key and drops its
  answer, and does neither. A reminder alone in the store is sent when due and is
  still stored afterwards, with its timer, and is written to the snapshot at shutdown.
  And when the search of \<^verbatim>\<open>Remove\<close> finds no record, as for "buy milk" stored
  before "call mom", the function returns normally, the record still stored, with one
  more log line.
\<close>

theorem timer_function_leaves_record:
  "Add buyMilk startup = Inr milkOnly \<and>
   timerFire 0 (advance hour milkOnly)
     = Some (Inr (milkFiring\<lparr>sent := [buyMilk], logs := [AlreadyTriggering]\<rparr>)) \<and>
   reminders (milkFiring\<lparr>sent := [buyMilk], logs := [AlreadyTriggering]\<rparr>) = [buyMilk] \<and>
   timers (milkFiring\<lparr>sent := [buyMilk], logs := [AlreadyTriggering]\<rparr>) = [0] \<and>
   map_sum id fst (deconstructRMState FormatRFC3339Nano
                     (milkFiring\<lparr>sent := [buyMilk], logs := [AlreadyTriggering]\<rparr>))
     = Inr (WriteTo FormatRFC3339Nano milkOnly) \<and>
   AddAll [buyMilk, callMom] startup = Inr milkAndMom \<and>
   timerFire 0 (advance hour milkAndMom) = Some (Inr milkSentNotRemoved) \<and>
   reminders milkSentNotRemoved = [buyMilk, callMom] \<and>
   timers milkSentNotRemoved = [0, 1] \<and>
   logs milkSentNotRemoved = [NotFound]"
  by code_simp

section \<open>Snapshot and restore\<close>

text \<open>
  Claim C1 asks that every store written by \<^verbatim>\<open>WriteTo\<close> and read by \<^verbatim>\<open>ReadFrom\<close>
  comes back the same, quotes in messages included. \<^verbatim>\<open>WriteTo\<close> escapes a quote the
  Go way, with a backslash, and the reader expects it doubled: the line written for a
  message with quotes is refused by the reader (\<^verbatim>\<open>ErrQuote\<close>), the restore is
  abandoned and the reminder is lost; a message with a backslash comes back with the
  backslash doubled.
\<close>

theorem snapshot_with_quote_not_restored:
  "Add sayHi startup = Inr sayHiPending \<and>
   WriteTo FormatRFC3339Nano sayHiPending = sayHiLine \<and>
   ReadFrom ParseRFC3339Nano sayHiLine startup = Inr (Some (CsvError ErrQuote), startup) \<and>
   constructRMState ParseRFC3339Nano sayHiLine startup = Inr (logPrint ImportFailed startup) \<and>
   map_sum id (map message \<circ> reminders)
     (constructRMState ParseRFC3339Nano (WriteTo FormatRFC3339Nano tempDirPending) startup)
     = Inr [''clean C:'' @ [CHR 0x5C, CHR 0x5C] @ ''temp'']"
  by code_simp

text \<open>Messages without such bytes do come back: the two reminders of the example.\<close>

lemma snapshot_plain_restored:
  "constructRMState ParseRFC3339Nano (WriteTo FormatRFC3339Nano milkAndMom) startup = Inr milkAndMom"
  by code_simp

text \<open>
  Claim C5 asks that a snapshot with a line that does not parse makes the restore
  return an error, never fatal, with the store emptied. \<^verbatim>\<open>ReadFrom\<close> indexes the
  fields of a record without looking at their number: a first line with fewer than four
  fields (a truncated snapshot, say) makes it panic, and nothing recovers the panic.
\<close>

theorem short_record_panics:
  "constructRMState ParseRFC3339Nano (''1001,2026-11-01T18:00:00Z'' @ [CHR 0x0A]) startup
     = Inl IndexOutOfRange \<and>
   constructRMState ParseRFC3339Nano (''hello'' @ [CHR 0x0A]) startup = Inl IndexOutOfRange"
  by code_simp

text \<open>
  Whenever \<^verbatim>\<open>ReadFrom\<close> does return an error, the restore ends with both slices
  empty, every timer that was in \<^verbatim>\<open>rs.timers\<close> no longer armed, and the failure logged.
\<close>

lemma constructRMState_error_resets:
  assumes "paired s" and "ReadFrom Parse f s = Inr (Some err, s1)"
  shows "\<exists>s'. constructRMState Parse f s = Inr s' \<and> reminders s' = [] \<and> timers s' = [] \<and>
           (\<forall>t\<in>set (timers s1). status (heap s' ! t) \<noteq> Armed) \<and>
           logs s' = logs s1 @ [ImportFailed]"
proof -
  from ReadFrom_paired [OF assms] have "paired s1" .
  from stopAll_paired [OF this] obtain hp where "stopAll (timers s1) (heap s1) = Inr hp"
    and "\<forall>t\<in>set (timers s1). status (hp ! t) \<noteq> Armed" by blast
  with assms(2) show ?thesis by (simp add: constructRMState_def logPrint_def)
qed

end
